theory Spec2Isabelle
  imports Complex_Main "HOL-Library.Word"
begin

section \<open>Constants and errors of neural-engine.js\<close>

text \<open>
  The engine works on \<open>Float32Array\<close>s. Numbers are modelled as exact reals: every
  statement below is about the arithmetic the code writes down, without rounding,
  overflow or NaN. Typed arrays are lists; a view onto a shared buffer is an offset
  into the list that models the buffer.
\<close>

definition FACET_SIZE :: nat where
  "FACET_SIZE = 512"

definition NUM_FACETS :: nat where
  "NUM_FACETS = 16"

definition RING_SLOTS :: nat where
  "RING_SLOTS = 32"

definition MIND_SIZE_BYTES :: nat where
  "MIND_SIZE_BYTES = 64 * 1024"

text \<open>
  Every \<open>throw new Error(...)\<close> of the source is one constructor, named after its
  message. \<open>VectorsMustBe\<close>, \<open>TargetMustBe\<close>, \<open>SourceMustBe\<close>, \<open>DeltaMustBe\<close>,
  \<open>EmbeddingMustBe\<close> and \<open>FeedbackMustBe\<close> are the length-mismatch errors,
  \<open>InvalidFacet\<close> and \<open>IndexOutOfBounds\<close> the invalid-index errors,
  \<open>RingBufferFull\<close> the buffer-full error and \<open>ToolMapNotInitialized\<close> the
  not-initialized error.
\<close>

datatype error =
    VectorsMustBe
  | TargetMustBe
  | SourceMustBe
  | DeltaMustBe
  | EmbeddingMustBe
  | FeedbackMustBe
  | InvalidFacet int
  | IndexOutOfBounds int
  | RingBufferFull
  | ToolMapNotInitialized


section \<open>SIMDOpsService\<close>

text \<open>
  \<open>cosineSimilarity\<close>: the loop runs \<open>i = 0, 4, 8, ...\<close> while \<open>i < FACET_SIZE\<close> and
  adds four products to each of the three accumulators per round.
\<close>

function cosine_loop ::
  "real list \<Rightarrow> real list \<Rightarrow> nat \<Rightarrow> real \<times> real \<times> real \<Rightarrow> real \<times> real \<times> real" where
  "cosine_loop a b i (dot, na, nb) =
     (if i < FACET_SIZE then
        (let a0 = a ! i; a1 = a ! (i + 1); a2 = a ! (i + 2); a3 = a ! (i + 3);
             b0 = b ! i; b1 = b ! (i + 1); b2 = b ! (i + 2); b3 = b ! (i + 3)
         in cosine_loop a b (i + 4)
              (dot + (a0 * b0 + a1 * b1 + a2 * b2 + a3 * b3),
               na + (a0 * a0 + a1 * a1 + a2 * a2 + a3 * a3),
               nb + (b0 * b0 + b1 * b1 + b2 * b2 + b3 * b3)))
      else (dot, na, nb))"
  by pat_completeness auto
termination
  by (relation "measure (\<lambda>(a, b, i, acc). FACET_SIZE - i)") auto

declare cosine_loop.simps [simp del]

definition cosineSimilarity :: "real list \<Rightarrow> real list \<Rightarrow> error + real" where
  "cosineSimilarity a b =
     (if length a \<noteq> FACET_SIZE \<or> length b \<noteq> FACET_SIZE then Inl VectorsMustBe
      else (case cosine_loop a b 0 (0, 0, 0) of
              (dot, na, nb) \<Rightarrow>
                (let denom = sqrt (na * nb)
                 in Inr (if denom = 0 then 0 else dot / denom))))"

text \<open>
  \<open>normalize\<close>: the sum of squares of the first \<open>FACET_SIZE\<close> entries, then every one
  of them multiplied by \<open>1 / norm\<close> when \<open>norm > 0\<close>.
\<close>

definition sumsq_loop :: "real list \<Rightarrow> real" where
  "sumsq_loop v = fold (\<lambda>i s. s + v ! i * v ! i) [0..<FACET_SIZE] 0"

definition normalize :: "real list \<Rightarrow> real list" where
  "normalize v =
     (let norm = sqrt (sumsq_loop v)
      in if norm > 0
         then (let inv = 1 / norm
               in fold (\<lambda>i w. w[i := w ! i * inv]) [0..<FACET_SIZE] v)
         else v)"

subsection \<open>The mathematical notions the specification uses\<close>

definition dotp :: "real list \<Rightarrow> real list \<Rightarrow> real" where
  "dotp a b = (\<Sum>i<FACET_SIZE. a ! i * b ! i)"

definition euclid_norm :: "real list \<Rightarrow> real" where
  "euclid_norm a = sqrt (\<Sum>i<FACET_SIZE. (a ! i)\<^sup>2)"

definition cosine :: "real list \<Rightarrow> real list \<Rightarrow> real" where
  "cosine a b =
     (if euclid_norm a = 0 \<or> euclid_norm b = 0 then 0
      else dotp a b / (euclid_norm a * euclid_norm b))"


section \<open>Typed-array views\<close>

text \<open>
  A \<open>Float32Array\<close> view of \<open>FACET_SIZE\<close> floats onto a buffer is its offset (in
  floats) into the list of the buffer. \<open>view_get\<close> reads the view, \<open>view_set\<close> is
  \<open>view.set(src)\<close> and \<open>view_fill\<close> is \<open>view.fill(0)\<close>. Every view the code
  makes lies inside its buffer (\<open>mind_ok\<close> and \<open>ring_ok\<close> below say so), and every
  source it copies has been checked to hold \<open>FACET_SIZE\<close> floats, so that no \<open>set\<close>
  is out of range.
\<close>

definition view_get :: "real list \<Rightarrow> nat \<Rightarrow> real list" where
  "view_get buf off = take FACET_SIZE (drop off buf)"

definition view_set :: "real list \<Rightarrow> nat \<Rightarrow> real list \<Rightarrow> real list" where
  "view_set buf off src = take off buf @ src @ drop (off + length src) buf"

definition view_fill :: "real list \<Rightarrow> nat \<Rightarrow> real list" where
  "view_fill buf off = view_set buf off (replicate FACET_SIZE 0)"

section \<open>NeuralMindService\<close>

text \<open>
  \<open>mind\<close> is \<open>mindView\<close>, the whole shared buffer as floats; facet \<open>i\<close> is the view
  at float offset \<open>i * FACET_SIZE\<close>. \<open>lastSnapshot\<close> holds one separate array per
  facet.
\<close>

record mind_state =
  mind :: "real list"
  lastSnapshot :: "real list list"

definition new_mind :: mind_state where
  "new_mind =
     \<lparr>mind = replicate (MIND_SIZE_BYTES div 4) 0,
      lastSnapshot = replicate NUM_FACETS (replicate FACET_SIZE 0)\<rparr>"

definition getFacet :: "int \<Rightarrow> error + nat" where
  "getFacet idx =
     (if idx < 0 \<or> idx \<ge> int NUM_FACETS then Inl (InvalidFacet idx)
      else Inr (nat idx * FACET_SIZE))"

definition readFacet :: "mind_state \<Rightarrow> int \<Rightarrow> real list \<Rightarrow> error + real list" where
  "readFacet s idx dst =
     (if length dst \<noteq> FACET_SIZE then Inl TargetMustBe
      else (case getFacet idx of
              Inl e \<Rightarrow> Inl e
            | Inr off \<Rightarrow> Inr (view_get (mind s) off)))"

definition writeFacet :: "mind_state \<Rightarrow> int \<Rightarrow> real list \<Rightarrow> error + mind_state" where
  "writeFacet s idx src =
     (if length src \<noteq> FACET_SIZE then Inl SourceMustBe
      else (case getFacet idx of
              Inl e \<Rightarrow> Inl e
            | Inr off \<Rightarrow> Inr (s\<lparr>mind := view_set (mind s) off src\<rparr>)))"

text \<open>
  One round of the loop of \<open>applyGradient\<close>: \<open>prev = target[i] - snap[i]\<close>,
  \<open>target[i] += lr * delta[i] + mom * prev\<close>, \<open>snap[i] = target[i]\<close>.
\<close>

definition gradient_step ::
  "nat \<Rightarrow> real list \<Rightarrow> real \<Rightarrow> real \<Rightarrow> nat \<Rightarrow> real list \<times> real list \<Rightarrow> real list \<times> real list" where
  "gradient_step off delta lr mom i =
     (\<lambda>(m, snap).
        (let prev = m ! (off + i) - snap ! i;
             t = m ! (off + i) + (lr * delta ! i + mom * prev)
         in (m[off + i := t], snap[i := t])))"

definition applyGradient ::
  "mind_state \<Rightarrow> int \<Rightarrow> real list \<Rightarrow> real \<Rightarrow> real \<Rightarrow> error + mind_state" where
  "applyGradient s facet delta lr mom =
     (if length delta \<noteq> FACET_SIZE then Inl DeltaMustBe
      else (case getFacet facet of
              Inl e \<Rightarrow> Inl e
            | Inr off \<Rightarrow>
                (case fold (gradient_step off delta lr mom) [0..<FACET_SIZE]
                        (mind s, lastSnapshot s ! nat facet) of
                   (m, snap) \<Rightarrow>
                     Inr (s\<lparr>mind := m,
                            lastSnapshot := (lastSnapshot s)[nat facet := snap]\<rparr>))))"

definition reset_mind :: "mind_state \<Rightarrow> mind_state" where
  "reset_mind s =
     \<lparr>mind = replicate (length (mind s)) 0,
      lastSnapshot = map (\<lambda>v. replicate (length v) 0) (lastSnapshot s)\<rparr>"

definition resetFacet :: "mind_state \<Rightarrow> int \<Rightarrow> error + mind_state" where
  "resetFacet s idx =
     (case getFacet idx of
        Inl e \<Rightarrow> Inl e
      | Inr off \<Rightarrow>
          Inr (s\<lparr>mind := view_fill (mind s) off,
                 lastSnapshot :=
                   (lastSnapshot s)
                     [nat idx := replicate (length (lastSnapshot s ! nat idx)) 0]\<rparr>))"

text \<open>The contents of facet \<open>g\<close> and the shape every reachable state has.\<close>

definition facet_of :: "mind_state \<Rightarrow> nat \<Rightarrow> real list" where
  "facet_of s g = view_get (mind s) (g * FACET_SIZE)"

definition mind_ok :: "mind_state \<Rightarrow> bool" where
  "mind_ok s =
     (length (mind s) = MIND_SIZE_BYTES div 4 \<and>
      length (lastSnapshot s) = NUM_FACETS \<and>
      list_all (\<lambda>v. length v = FACET_SIZE) (lastSnapshot s))"

section \<open>RingBufferService\<close>

text \<open>
  The header cells \<open>head\<close> and \<open>tail\<close> only ever hold values below \<open>RING_SLOTS\<close>
  and are natural numbers; \<open>generation\<close> is the \<open>Uint32\<close> cell that
  \<open>Atomics.add\<close> increments modulo \<open>2 ^ 32\<close>. \<open>slots\<close> is the flat array of
  \<open>RING_SLOTS * FACET_SIZE\<close> floats. The model is sequential: the compare-and-exchange
  of \<open>push\<close> finds the head it has just read and the loop body runs once.
\<close>

record ring_state =
  head :: nat
  tail :: nat
  generation :: "32 word"
  flags :: "32 word"
  slots :: "real list"

definition new_ring :: ring_state where
  "new_ring =
     \<lparr>head = 0, tail = 0, generation = 0, flags = 0,
      slots = replicate (RING_SLOTS * FACET_SIZE) 0\<rparr>"

definition reset_ring :: "ring_state \<Rightarrow> ring_state" where
  "reset_ring r =
     \<lparr>head = 0, tail = 0, generation = 0, flags = 0,
      slots = replicate (length (slots r)) 0\<rparr>"

definition push :: "ring_state \<Rightarrow> real list \<Rightarrow> error + (nat \<times> ring_state)" where
  "push r embedding =
     (if length embedding \<noteq> FACET_SIZE then Inl EmbeddingMustBe
      else (let h = head r; next = (h + 1) mod RING_SLOTS; t = tail r
            in if next = t then Inl RingBufferFull
               else Inr (h,
                      r\<lparr>head := next,
                        slots := view_set (slots r) (h * FACET_SIZE) embedding,
                        generation :=
                          (if next = 0 then generation r + 1 else generation r)\<rparr>)))"

text \<open>
  \<open>readNext\<close> returns \<open>null\<close> (\<open>None\<close>) or a view onto the slot at \<open>tail\<close>, given
  by its float offset into \<open>slots\<close>; read it with \<open>view_get\<close>.
\<close>

definition readNext :: "ring_state \<Rightarrow> nat option \<times> ring_state" where
  "readNext r =
     (let h = head r; t = tail r
      in if h = t \<and> generation r = 0 then (None, r)
         else (let slotIdx = t; offset = slotIdx * FACET_SIZE;
                   nextTail = (t + 1) mod RING_SLOTS
               in (Some offset, r\<lparr>tail := nextTail\<rparr>)))"

definition getSlot :: "int \<Rightarrow> error + nat" where
  "getSlot idx =
     (if idx < 0 \<or> idx \<ge> int RING_SLOTS then Inl (IndexOutOfBounds idx)
      else Inr (nat idx * FACET_SIZE))"

definition isFull :: "ring_state \<Rightarrow> bool" where
  "isFull r =
     (let next = (head r + 1) mod RING_SLOTS
      in next = tail r \<and> generation r > 0)"

definition available :: "ring_state \<Rightarrow> nat" where
  "available r =
     (let h = head r; t = tail r
      in if h \<ge> t then h - t else RING_SLOTS - t + h)"

text \<open>Sequences of calls: pushes stop at the first error, as the exception would.\<close>

fun push_all :: "ring_state \<Rightarrow> real list list \<Rightarrow> error + ring_state" where
  "push_all r [] = Inr r"
| "push_all r (v # vs) =
     (case push r v of Inl e \<Rightarrow> Inl e | Inr (i, r') \<Rightarrow> push_all r' vs)"

fun read_times :: "nat \<Rightarrow> ring_state \<Rightarrow> nat option list \<times> ring_state" where
  "read_times 0 r = ([], r)"
| "read_times (Suc k) r =
     (case readNext r of
        (x, r') \<Rightarrow> (case read_times k r' of (xs, r'') \<Rightarrow> (x # xs, r'')))"

definition ring_ok :: "ring_state \<Rightarrow> bool" where
  "ring_ok r =
     (head r < RING_SLOTS \<and> tail r < RING_SLOTS \<and>
      length (slots r) = RING_SLOTS * FACET_SIZE)"

text \<open>
  The contents of slot \<open>i\<close>, and the unread items of the ring from \<open>tail\<close> up to
  \<open>head\<close>, oldest first (what \<open>iterate\<close> walks over).
\<close>

definition slot_of :: "ring_state \<Rightarrow> nat \<Rightarrow> real list" where
  "slot_of r i = view_get (slots r) (i * FACET_SIZE)"

definition queue :: "ring_state \<Rightarrow> real list list" where
  "queue r = map (\<lambda>j. slot_of r ((tail r + j) mod RING_SLOTS)) [0..<available r]"

section \<open>PrometheusService\<close>

text \<open>
  \<open>thresholds\<close> is the \<open>Map\<close> from facet to its configuration object. \<open>adapt\<close>
  returns at once for a facet that has none.
\<close>

record threshold_cfg =
  facet :: int
  threshold :: real
  learningRate :: real
  momentum :: real

definition defaultCfg :: "int \<Rightarrow> threshold_cfg" where
  "defaultCfg f = \<lparr>facet = f, threshold = 0.7, learningRate = 0.01, momentum = 0.9\<rparr>"

definition monitored :: "int list" where
  "monitored = [0, 1, 2, 3, 11]"

definition new_thresholds :: "int \<rightharpoonup> threshold_cfg" where
  "new_thresholds = (\<lambda>f. if f \<in> set monitored then Some (defaultCfg f) else None)"

definition setThreshold ::
  "(int \<rightharpoonup> threshold_cfg) \<Rightarrow> threshold_cfg \<Rightarrow> (int \<rightharpoonup> threshold_cfg)" where
  "setThreshold th cfg = th(facet cfg \<mapsto> cfg)"

definition adapt :: "(int \<rightharpoonup> threshold_cfg) \<Rightarrow> int \<Rightarrow> real \<Rightarrow> (int \<rightharpoonup> threshold_cfg)" where
  "adapt th f observed =
     (case th f of
        None \<Rightarrow> th
      | Some cfg \<Rightarrow>
          (let err = threshold cfg - observed;
               upd = learningRate cfg * err;
               newThr = threshold cfg - upd;
               newThr = max 0.5 (min 0.95 newThr)
           in th(f \<mapsto> cfg\<lparr>threshold := newThr\<rparr>)))"

section \<open>NeuralRouterService\<close>

record tool =
  toolId :: int
  name :: string
  centroid :: "real list"
  hitCount :: int
  accuracy :: real

text \<open>
  \<open>initializeToolMap\<close> for tools given as \<open>{toolId, name, centroid}\<close>, as the callers
  in the repository give them: the centroid is copied, \<open>hitCount\<close> and \<open>accuracy\<close>
  start at 0. It does not check the length of a centroid.
\<close>

definition initializeToolMap :: "(int \<times> string \<times> real list) list \<Rightarrow> tool list" where
  "initializeToolMap tools =
     map (\<lambda>(i, n, c). \<lparr>toolId = i, name = n, centroid = c, hitCount = 0, accuracy = 0\<rparr>)
       tools"

text \<open>
  \<open>bestSim\<close> starts at \<open>-Infinity\<close>, which no real is; \<open>sim > bestSim\<close> is
  \<open>exceeds sim bestSim\<close>.
\<close>

datatype js_number = NegInfinity | Num real

fun exceeds :: "real \<Rightarrow> js_number \<Rightarrow> bool" where
  "exceeds sim NegInfinity = True"
| "exceeds sim (Num b) = (sim > b)"

record route_result =
  res_toolId :: int
  confidence :: js_number
  intentVector :: "real list"

text \<open>
  The loop of \<open>route\<close> over \<open>toolMap[i], toolMap[i+1], ...\<close>: the tools still to
  visit, the index \<open>i\<close>, then \<open>best\<close> and \<open>bestSim\<close>. An exception of
  \<open>cosineSimilarity\<close> ends it.
\<close>

fun route_loop ::
  "real list \<Rightarrow> tool list \<Rightarrow> nat \<Rightarrow> nat \<Rightarrow> js_number \<Rightarrow> error + (nat \<times> js_number)" where
  "route_loop intent [] i best bestSim = Inr (best, bestSim)"
| "route_loop intent (t # ts) i best bestSim =
     (case cosineSimilarity intent (centroid t) of
        Inl e \<Rightarrow> Inl e
      | Inr sim \<Rightarrow>
          (if exceeds sim bestSim then route_loop intent ts (i + 1) i (Num sim)
           else route_loop intent ts (i + 1) best bestSim))"

text \<open>
  \<open>route\<close>, without the latency it measures with the wall clock. The intent is facet
  \<open>FacetType.INTENT = 0\<close>.
\<close>

definition route :: "mind_state \<Rightarrow> tool list \<Rightarrow> error + route_result" where
  "route s toolMap =
     (if length toolMap = 0 then Inl ToolMapNotInitialized
      else (case getFacet 0 of
              Inl e \<Rightarrow> Inl e
            | Inr off \<Rightarrow>
                (let intent = view_get (mind s) off
                 in (case route_loop intent toolMap 0 0 NegInfinity of
                       Inl e \<Rightarrow> Inl e
                     | Inr (best, bestSim) \<Rightarrow>
                         Inr \<lparr>res_toolId = toolId (toolMap ! best),
                              confidence = bestSim,
                              intentVector = intent\<rparr>))))"

text \<open>
  \<open>routeTopK\<close>: the candidates \<open>{index, sim}\<close> in registration order, the sort with
  the comparator \<open>(a, b) => b.sim - a.sim\<close>, then \<open>slice(0, k)\<close>.
  \<open>Array.prototype.sort\<close> is the stable sort of the language; on a total preorder
  every stable sort returns the same list, here the one of insertion sort on the key
  \<open>- sim\<close>. \<open>slice(0, k)\<close> with a negative \<open>k\<close> counts from the end.
\<close>

record cand =
  index :: nat
  sim :: real

fun cand_loop :: "real list \<Rightarrow> tool list \<Rightarrow> nat \<Rightarrow> error + cand list" where
  "cand_loop intent [] i = Inr []"
| "cand_loop intent (t # ts) i =
     (case cosineSimilarity intent (centroid t) of
        Inl e \<Rightarrow> Inl e
      | Inr sm \<Rightarrow>
          (case cand_loop intent ts (i + 1) of
             Inl e \<Rightarrow> Inl e
           | Inr cs \<Rightarrow> Inr (\<lparr>index = i, sim = sm\<rparr> # cs)))"

text \<open>The candidates when every similarity is computed: tool \<open>j\<close> with its cosine.\<close>

definition base_cands :: "real list \<Rightarrow> tool list \<Rightarrow> cand list" where
  "base_cands intent toolMap =
     map (\<lambda>j. \<lparr>index = j, sim = cosine intent (centroid (toolMap ! j))\<rparr>) [0..<length toolMap]"

definition sort_desc :: "cand list \<Rightarrow> cand list" where
  "sort_desc cs = sort_key (\<lambda>c. - sim c) cs"

definition slice0 :: "'a list \<Rightarrow> int \<Rightarrow> 'a list" where
  "slice0 xs k =
     (if k < 0 then take (nat (int (length xs) + k)) xs else take (nat k) xs)"

definition routeTopK :: "mind_state \<Rightarrow> tool list \<Rightarrow> int \<Rightarrow> error + route_result list" where
  "routeTopK s toolMap k =
     (if length toolMap = 0 then Inl ToolMapNotInitialized
      else (case getFacet 0 of
              Inl e \<Rightarrow> Inl e
            | Inr off \<Rightarrow>
                (let intent = view_get (mind s) off
                 in (case cand_loop intent toolMap 0 of
                       Inl e \<Rightarrow> Inl e
                     | Inr cs \<Rightarrow>
                         Inr (map (\<lambda>c. \<lparr>res_toolId = toolId (toolMap ! index c),
                                         confidence = Num (sim c),
                                         intentVector = intent\<rparr>)
                                (slice0 (sort_desc cs) k))))))"

text \<open>
  \<open>updateTool\<close>: \<open>find\<close> gives the first tool with the id. The result says whether
  the warning was printed and gives the tool map afterwards.
\<close>

fun find_tool :: "int \<Rightarrow> tool list \<Rightarrow> nat option" where
  "find_tool tid [] = None"
| "find_tool tid (t # ts) =
     (if toolId t = tid then Some 0
      else (case find_tool tid ts of None \<Rightarrow> None | Some j \<Rightarrow> Some (Suc j)))"

definition blend_loop :: "real list \<Rightarrow> real list \<Rightarrow> real \<Rightarrow> real list" where
  "blend_loop c feedback lr =
     fold (\<lambda>i w. (let delta = feedback ! i - w ! i in w[i := w ! i + lr * delta]))
       [0..<FACET_SIZE] c"

definition updateTool ::
  "tool list \<Rightarrow> int \<Rightarrow> real list \<Rightarrow> real \<Rightarrow> error + (bool \<times> tool list)" where
  "updateTool toolMap tid feedback lr =
     (case find_tool tid toolMap of
        None \<Rightarrow> Inr (True, toolMap)
      | Some j \<Rightarrow>
          (if length feedback \<noteq> FACET_SIZE then Inl FeedbackMustBe
           else (let t = toolMap ! j;
                     c = normalize (blend_loop (centroid t) feedback lr)
                 in Inr (False,
                      toolMap[j := t\<lparr>centroid := c, hitCount := hitCount t + 1\<rparr>]))))"

section \<open>Typed-array views: reading and writing\<close>

lemma FACET_SIZE_pos: "0 < FACET_SIZE"
  by (simp add: FACET_SIZE_def)

lemma length_view_set:
  "off + length src \<le> length buf \<Longrightarrow> length (view_set buf off src) = length buf"
  by (simp add: view_set_def)

lemma nth_view_set:
  "off + length src \<le> length buf \<Longrightarrow> i < length buf \<Longrightarrow>
   view_set buf off src ! i = (if off \<le> i \<and> i < off + length src then src ! (i - off) else buf ! i)"
  by (auto simp: view_set_def nth_append)

lemma length_view_get:
  "off + FACET_SIZE \<le> length buf \<Longrightarrow> length (view_get buf off) = FACET_SIZE"
  by (simp add: view_get_def)

lemma nth_view_get:
  "off + FACET_SIZE \<le> length buf \<Longrightarrow> j < FACET_SIZE \<Longrightarrow> view_get buf off ! j = buf ! (off + j)"
  by (simp add: view_get_def)

lemma view_get_set_same:
  assumes "off + FACET_SIZE \<le> length buf" "length src = FACET_SIZE"
  shows "view_get (view_set buf off src) off = src"
  using assms by (simp add: view_get_def view_set_def)

lemma view_get_set_other:
  assumes "off + FACET_SIZE \<le> length buf" "length src = FACET_SIZE"
    "off2 + FACET_SIZE \<le> length buf" "off2 + FACET_SIZE \<le> off \<or> off + FACET_SIZE \<le> off2"
  shows "view_get (view_set buf off src) off2 = view_get buf off2"
proof (rule nth_equalityI)
  show "length (view_get (view_set buf off src) off2) = length (view_get buf off2)"
    using assms by (simp add: length_view_get length_view_set)
next
  fix j assume "j < length (view_get (view_set buf off src) off2)"
  then have j: "j < FACET_SIZE" using assms by (simp add: length_view_get length_view_set)
  show "view_get (view_set buf off src) off2 ! j = view_get buf off2 ! j"
    using assms j by (auto simp: nth_view_get length_view_set nth_view_set)
qed

lemma slot_bound: "i < n \<Longrightarrow> i * d + d \<le> n * (d::nat)"
proof -
  assume "i < n"
  then have "Suc i \<le> n" by simp
  then have "Suc i * d \<le> n * d" by (rule mult_le_mono1)
  then show ?thesis by (simp add: add.commute)
qed

lemma slot_disjoint: "i \<noteq> j \<Longrightarrow> i * d + d \<le> j * d \<or> j * d + d \<le> i * (d::nat)"
  using slot_bound[of i j d] slot_bound[of j i d] by (cases "i < j") auto

section \<open>The ring buffer as a queue\<close>

lemma head_arith:
  "h < 32 \<Longrightarrow> t < 32 \<Longrightarrow> h = (t + (if t \<le> h then h - t else 32 - t + h)) mod (32::nat)"
  by (auto simp: mod_if)

lemma next_arith:
  "h < 32 \<Longrightarrow> t < 32 \<Longrightarrow> ((h + 1) mod 32 \<noteq> t) = ((if t \<le> h then h - t else 32 - t + h) < (31::nat))"
  by (auto simp: mod_if)

lemma mod_inj_arith:
  assumes "j < a" "a < (n::nat)"
  shows "(t + j) mod n \<noteq> (t + a) mod n"
proof
  assume "(t + j) mod n = (t + a) mod n"
  then have "(t + a) mod n = (t + j) mod n" by simp
  moreover have "t + j \<le> t + a" using assms by simp
  ultimately have "n dvd (t + a) - (t + j)" by (simp add: mod_eq_dvd_iff_nat)
  then have "n dvd a - j" by simp
  moreover have "0 < a - j" "a - j < n" using assms by auto
  ultimately show False by (simp add: nat_dvd_not_less)
qed

lemma mod_shift_arith: "(Suc t mod n + j) mod n = Suc (t + j) mod (n::nat)"
  by (metis add_Suc mod_add_left_eq)

lemma slot_of_push_same:
  assumes "ring_ok r" "length e = FACET_SIZE" "push r e = Inr (i, r')"
  shows "slot_of r' (head r) = e"
proof -
  have 1: "head r * FACET_SIZE + FACET_SIZE \<le> length (slots r)"
    using assms(1) slot_bound[of "head r" RING_SLOTS FACET_SIZE] by (simp add: ring_ok_def)
  have "slots r' = view_set (slots r) (head r * FACET_SIZE) e"
    using assms(3) by (auto simp: push_def Let_def split: if_splits)
  then show ?thesis
    using view_get_set_same[OF 1 assms(2)] by (simp add: slot_of_def)
qed

lemma slot_of_push_other:
  assumes "ring_ok r" "length e = FACET_SIZE" "push r e = Inr (i, r')" "j < RING_SLOTS" "j \<noteq> head r"
  shows "slot_of r' j = slot_of r j"
proof -
  have 1: "head r * FACET_SIZE + FACET_SIZE \<le> length (slots r)"
    using assms(1) slot_bound[of "head r" RING_SLOTS FACET_SIZE] by (simp add: ring_ok_def)
  have 2: "j * FACET_SIZE + FACET_SIZE \<le> length (slots r)"
    using assms(1,4) slot_bound[of j RING_SLOTS FACET_SIZE] by (simp add: ring_ok_def)
  have 3: "j * FACET_SIZE + FACET_SIZE \<le> head r * FACET_SIZE \<or> head r * FACET_SIZE + FACET_SIZE \<le> j * FACET_SIZE"
    using assms(5) slot_disjoint[of j "head r" FACET_SIZE] by simp
  have "slots r' = view_set (slots r) (head r * FACET_SIZE) e"
    using assms(3) by (auto simp: push_def Let_def split: if_splits)
  then show ?thesis
    using view_get_set_other[OF 1 assms(2) 2 3] by (simp add: slot_of_def)
qed

lemma push_header:
  assumes "push r e = Inr (i, r')"
  shows "i = head r" "head r' = (head r + 1) mod RING_SLOTS" "tail r' = tail r"
    "generation r' = (if (head r + 1) mod RING_SLOTS = 0 then generation r + 1 else generation r)"
    "length e = FACET_SIZE" "(head r + 1) mod RING_SLOTS \<noteq> tail r"
  using assms by (auto simp: push_def Let_def split: if_splits)

lemma push_ring_ok:
  assumes "ring_ok r" "push r e = Inr (i, r')"
  shows "ring_ok r'"
proof -
  have 1: "head r * FACET_SIZE + length e \<le> length (slots r)"
    using assms(1) push_header(5)[OF assms(2)] slot_bound[of "head r" RING_SLOTS FACET_SIZE]
    by (simp add: ring_ok_def)
  have "slots r' = view_set (slots r) (head r * FACET_SIZE) e"
    using assms(2) by (auto simp: push_def Let_def split: if_splits)
  then have "length (slots r') = length (slots r)" using 1 by (simp add: length_view_set)
  moreover have "head r' < RING_SLOTS"
    using push_header(2)[OF assms(2)] by (simp add: RING_SLOTS_def)
  ultimately show ?thesis
    using assms(1) push_header(3)[OF assms(2)] by (simp add: ring_ok_def)
qed

lemma push_succeeds:
  assumes "length e = FACET_SIZE" "(head r + 1) mod RING_SLOTS \<noteq> tail r"
  shows "\<exists>r'. push r e = Inr (head r, r')"
  using assms by (simp add: push_def Let_def)

lemma push_fails_full:
  assumes "length e = FACET_SIZE" "(head r + 1) mod RING_SLOTS = tail r"
  shows "push r e = Inl RingBufferFull"
  using assms by (simp add: push_def Let_def)

lemma available_lt: "ring_ok r \<Longrightarrow> available r < RING_SLOTS"
  by (auto simp: available_def ring_ok_def Let_def RING_SLOTS_def)

lemma head_from_tail:
  "ring_ok r \<Longrightarrow> head r = (tail r + available r) mod RING_SLOTS"
  using head_arith[of "head r" "tail r"]
  by (simp add: available_def ring_ok_def Let_def RING_SLOTS_def)

lemma next_ne_tail_iff:
  "ring_ok r \<Longrightarrow> ((head r + 1) mod RING_SLOTS \<noteq> tail r) = (available r < RING_SLOTS - 1)"
  using next_arith[of "head r" "tail r"]
  by (simp add: available_def ring_ok_def Let_def RING_SLOTS_def)

lemma available_zero_iff: "ring_ok r \<Longrightarrow> (available r = 0) = (head r = tail r)"
  by (auto simp: available_def ring_ok_def Let_def RING_SLOTS_def)

lemma push_available:
  assumes "ring_ok r" "push r e = Inr (i, r')"
  shows "available r' = Suc (available r)"
  using assms(1) push_header(2,3,6)[OF assms(2)]
  by (auto simp: available_def ring_ok_def Let_def RING_SLOTS_def mod_if split: if_splits)

lemma push_queue:
  assumes ok: "ring_ok r" and p: "push r e = Inr (i, r')"
  shows "queue r' = queue r @ [e]"
proof -
  have len: "length e = FACET_SIZE" using p by (rule push_header)
  have tl: "tail r' = tail r" using p by (rule push_header)
  have av: "available r' = Suc (available r)" using ok p by (rule push_available)
  have hd: "head r = (tail r + available r) mod RING_SLOTS" using ok by (rule head_from_tail)
  have a: "available r < RING_SLOTS" using ok by (rule available_lt)
  have old: "slot_of r' ((tail r + j) mod RING_SLOTS) = slot_of r ((tail r + j) mod RING_SLOTS)"
    if "j < available r" for j
  proof (rule slot_of_push_other[OF ok len p])
    show "(tail r + j) mod RING_SLOTS < RING_SLOTS" by (simp add: RING_SLOTS_def)
    show "(tail r + j) mod RING_SLOTS \<noteq> head r"
      using mod_inj_arith[OF that a, of "tail r"] hd by simp
  qed
  have new: "slot_of r' ((tail r + available r) mod RING_SLOTS) = e"
    using slot_of_push_same[OF ok len p] hd by simp
  show ?thesis
    by (simp add: queue_def tl av old new)
qed

lemma readNext_some:
  assumes "head r \<noteq> tail r \<or> generation r \<noteq> 0"
  shows "readNext r = (Some (tail r * FACET_SIZE), r\<lparr>tail := (tail r + 1) mod RING_SLOTS\<rparr>)"
  using assms by (auto simp: readNext_def Let_def)

lemma readNext_none_iff: "(fst (readNext r) = None) = (head r = tail r \<and> generation r = 0)"
  by (auto simp: readNext_def Let_def)

lemma read_ring_ok:
  "ring_ok r \<Longrightarrow> ring_ok (r\<lparr>tail := (tail r + 1) mod RING_SLOTS\<rparr>)"
  by (simp add: ring_ok_def RING_SLOTS_def)

lemma read_available:
  assumes "ring_ok r" "head r \<noteq> tail r"
  shows "available (r\<lparr>tail := (tail r + 1) mod RING_SLOTS\<rparr>) = available r - 1"
  using assms
  by (auto simp: available_def ring_ok_def Let_def RING_SLOTS_def mod_if split: if_splits)

lemma read_queue:
  assumes "ring_ok r" "head r \<noteq> tail r"
  shows "queue r = slot_of r (tail r) # queue (r\<lparr>tail := (tail r + 1) mod RING_SLOTS\<rparr>)"
proof -
  have pos: "0 < available r" using assms available_zero_iff[of r] by simp
  have t: "tail r mod RING_SLOTS = tail r" using assms(1) by (simp add: ring_ok_def)
  have "[0..<available r] = 0 # map Suc [0..<available r - 1]"
    using pos by (metis One_nat_def Suc_pred map_Suc_upt upt_conv_Cons)
  then have "queue r = slot_of r (tail r) #
      map (\<lambda>j. slot_of r ((tail r + Suc j) mod RING_SLOTS)) [0..<available r - 1]"
    by (simp add: queue_def t comp_def)
  then show ?thesis
    using read_available[OF assms]
    by (simp add: queue_def slot_of_def mod_shift_arith)
qed

lemma push_all_ok:
  assumes "ring_ok r" "\<forall>v\<in>set vs. length v = FACET_SIZE" "available r + length vs \<le> RING_SLOTS - 1"
  shows "\<exists>r'. push_all r vs = Inr r' \<and> ring_ok r' \<and> tail r' = tail r \<and>
              queue r' = queue r @ vs \<and> available r' = available r + length vs"
  using assms
proof (induction vs arbitrary: r)
  case Nil
  then show ?case by simp
next
  case (Cons v vs)
  have len: "length v = FACET_SIZE" using Cons.prems(2) by simp
  have "available r < RING_SLOTS - 1" using Cons.prems(3) by simp
  then have "(head r + 1) mod RING_SLOTS \<noteq> tail r"
    using next_ne_tail_iff[OF Cons.prems(1)] by simp
  then obtain r1 where p: "push r v = Inr (head r, r1)"
    using push_succeeds[OF len] by blast
  have ok1: "ring_ok r1" using Cons.prems(1) p by (rule push_ring_ok)
  have av1: "available r1 = Suc (available r)" using Cons.prems(1) p by (rule push_available)
  have q1: "queue r1 = queue r @ [v]" using Cons.prems(1) p by (rule push_queue)
  have t1: "tail r1 = tail r" using p by (rule push_header)
  have "\<exists>r'. push_all r1 vs = Inr r' \<and> ring_ok r' \<and> tail r' = tail r1 \<and>
              queue r' = queue r1 @ vs \<and> available r' = available r1 + length vs"
    using Cons.prems(2,3) av1 by (intro Cons.IH[OF ok1]) auto
  then show ?case
    using p av1 q1 t1 by auto
qed

lemma push_all_nowrap:
  assumes "push_all r vs = Inr r'" "head r + length vs < RING_SLOTS"
  shows "head r' = head r + length vs \<and> generation r' = generation r"
  using assms
proof (induction vs arbitrary: r)
  case Nil
  then show ?case by simp
next
  case (Cons v vs)
  from Cons.prems(1) obtain i r1 where p: "push r v = Inr (i, r1)" and rest: "push_all r1 vs = Inr r'"
    by (auto split: sum.splits)
  have h1: "head r1 = head r + 1"
    using push_header(2)[OF p] Cons.prems(2) by simp
  have g1: "generation r1 = generation r"
    using push_header(4)[OF p] Cons.prems(2) by simp
  have "head r' = head r1 + length vs \<and> generation r' = generation r1"
    using Cons.prems(2) h1 by (intro Cons.IH[OF rest]) simp
  then show ?case using h1 g1 by simp
qed

lemma read_times_ok:
  assumes "ring_ok r" "k \<le> available r"
  shows "\<exists>offs r'. read_times k r = (map Some offs, r') \<and>
           map (view_get (slots r')) offs = take k (queue r) \<and>
           queue r' = drop k (queue r) \<and> available r' = available r - k \<and>
           ring_ok r' \<and> slots r' = slots r \<and> head r' = head r \<and>
           generation r' = generation r \<and> tail r' = (tail r + k) mod RING_SLOTS \<and>
           length offs = k"
  using assms
proof (induction k arbitrary: r)
  case 0
  then show ?case by (simp add: ring_ok_def)
next
  case (Suc k)
  let ?r1 = "r\<lparr>tail := (tail r + 1) mod RING_SLOTS\<rparr>"
  have ne: "head r \<noteq> tail r"
    using Suc.prems available_zero_iff[of r] by auto
  have rd: "readNext r = (Some (tail r * FACET_SIZE), ?r1)"
    using ne by (simp add: readNext_some)
  have ok1: "ring_ok ?r1" using Suc.prems(1) by (rule read_ring_ok)
  have av1: "available ?r1 = available r - 1" using Suc.prems(1) ne by (rule read_available)
  have q: "queue r = slot_of r (tail r) # queue ?r1" using Suc.prems(1) ne by (rule read_queue)
  have "k \<le> available ?r1" using Suc.prems(2) av1 by simp
  from Suc.IH[OF ok1 this] obtain offs r' where
    ih: "read_times k ?r1 = (map Some offs, r')"
      "map (view_get (slots r')) offs = take k (queue ?r1)"
      "queue r' = drop k (queue ?r1)" "available r' = available ?r1 - k"
      "ring_ok r'" "slots r' = slots ?r1" "head r' = head ?r1"
      "generation r' = generation ?r1" "tail r' = (tail ?r1 + k) mod RING_SLOTS"
      "length offs = k"
    by blast
  have "read_times (Suc k) r = (map Some (tail r * FACET_SIZE # offs), r')"
    using rd ih(1) by simp
  moreover have "map (view_get (slots r')) (tail r * FACET_SIZE # offs) = take (Suc k) (queue r)"
    using ih(2,6) q by (simp add: slot_of_def)
  moreover have "queue r' = drop (Suc k) (queue r)" using ih(3) q by simp
  moreover have "available r' = available r - Suc k" using ih(4) av1 by simp
  moreover have "tail r' = (tail r + Suc k) mod RING_SLOTS"
    using ih(9) by (simp add: mod_shift_arith)
  ultimately show ?case
    using ih(5,6,7,8,10) by (intro exI[of _ "tail r * FACET_SIZE # offs"] exI[of _ r']) simp
qed

lemma read_times_hd:
  assumes "read_times (Suc k) r = (map Some offs, r')" "head r \<noteq> tail r"
  shows "hd offs = tail r * FACET_SIZE"
proof -
  have "readNext r = (Some (tail r * FACET_SIZE), r\<lparr>tail := (tail r + 1) mod RING_SLOTS\<rparr>)"
    using assms(2) by (simp add: readNext_some)
  then have "hd (map Some offs) = Some (tail r * FACET_SIZE)" "map Some offs \<noteq> []"
    using assms(1) by (auto split: prod.splits)
  then show ?thesis by (simp add: hd_map)
qed

lemma queue_empty: "ring_ok r \<Longrightarrow> head r = tail r \<Longrightarrow> queue r = []"
  by (simp add: queue_def available_def)

lemma new_ring_ok: "ring_ok new_ring"
  by (simp add: ring_ok_def new_ring_def RING_SLOTS_def)

lemma reset_ring_ok: "length (slots r) = RING_SLOTS * FACET_SIZE \<Longrightarrow> ring_ok (reset_ring r)"
  by (simp add: ring_ok_def reset_ring_def RING_SLOTS_def)

section \<open>Claims about the ring buffer\<close>

lemma fresh_pushes:
  assumes "ring_ok r" "head r = 0" "tail r = 0" "generation r = 0"
    "length vs = RING_SLOTS - 1" "\<forall>v\<in>set vs. length v = FACET_SIZE"
  shows "\<exists>r1. push_all r vs = Inr r1 \<and> ring_ok r1 \<and> head r1 = RING_SLOTS - 1 \<and> tail r1 = 0 \<and>
           generation r1 = 0 \<and> queue r1 = vs \<and> available r1 = RING_SLOTS - 1"
proof -
  have a0: "available r = 0" using assms(2,3) by (simp add: available_def)
  have q0: "queue r = []" using assms(1,2,3) by (simp add: queue_empty)
  obtain r1 where r1: "push_all r vs = Inr r1" "ring_ok r1" "tail r1 = tail r"
      "queue r1 = queue r @ vs" "available r1 = available r + length vs"
    using push_all_ok[OF assms(1) assms(6)] assms(5) a0 by auto
  have "head r1 = head r + length vs \<and> generation r1 = generation r"
    using r1(1) assms(2,5) by (intro push_all_nowrap) (simp_all add: RING_SLOTS_def)
  then show ?thesis
    using r1 assms a0 q0 by simp
qed

lemma isFull_needs_generation: "generation r = 0 \<Longrightarrow> \<not> isFull r"
  by (simp add: isFull_def Let_def)

text \<open>
  Claim C1. For a freshly reset ring buffer, after exactly \<open>RING_SLOTS - 1 = 31\<close>
  successful pushes with no reads, \<open>isFull()\<close> should be true and the next push fails
  with the buffer-full error. The code at that input: the 31 pushes succeed and the next
  one fails with \<open>Ring buffer full\<close>, but the head has not wrapped, \<open>generation\<close>
  is still 0 and \<open>isFull()\<close> returns false.
\<close>

theorem C1_isFull_false_after_31_pushes:
  "\<exists>r. push_all (reset_ring new_ring) (replicate (RING_SLOTS - 1) (replicate FACET_SIZE 1)) = Inr r \<and>
       head r = 31 \<and> tail r = 0 \<and> generation r = 0 \<and> available r = 31 \<and>
       \<not> isFull r \<and>
       push r (replicate FACET_SIZE 1) = Inl RingBufferFull"
proof -
  let ?r0 = "reset_ring new_ring"
  have ok: "ring_ok ?r0" by (rule reset_ring_ok) (simp add: new_ring_def)
  obtain r where r: "push_all ?r0 (replicate (RING_SLOTS - 1) (replicate FACET_SIZE 1)) = Inr r"
      "head r = RING_SLOTS - 1" "tail r = 0" "generation r = 0" "available r = RING_SLOTS - 1"
    using fresh_pushes[OF ok, of "replicate (RING_SLOTS - 1) (replicate FACET_SIZE 1)"]
    by (auto simp: reset_ring_def)
  have "push r (replicate FACET_SIZE 1) = Inl RingBufferFull"
    using r(2,3) by (intro push_fails_full) (simp_all add: RING_SLOTS_def)
  then show ?thesis
    using r isFull_needs_generation[OF r(4)] by (simp add: RING_SLOTS_def)
qed

lemma next_ne_self: "t < RING_SLOTS \<Longrightarrow> (t + 1) mod RING_SLOTS \<noteq> t"
  by (auto simp: RING_SLOTS_def mod_if)

lemma push_then_read:
  assumes "ring_ok r" "head r = tail r" "length v = FACET_SIZE"
  shows "\<exists>i r1 off r2. push r v = Inr (i, r1) \<and> readNext r1 = (Some off, r2) \<and>
           view_get (slots r1) off = v \<and> view_get (slots r2) off = v \<and> available r2 = 0"
proof -
  have t: "tail r < RING_SLOTS" using assms(1) by (simp add: ring_ok_def)
  have "(head r + 1) mod RING_SLOTS \<noteq> tail r" using next_ne_self[OF t] assms(2) by simp
  then obtain r1 where p: "push r v = Inr (head r, r1)"
    using push_succeeds[OF assms(3)] by blast
  have h1: "head r1 = (tail r + 1) mod RING_SLOTS" using push_header(2)[OF p] assms(2) by simp
  have t1: "tail r1 = tail r" using p by (rule push_header)
  have s1: "slot_of r1 (tail r) = v" using slot_of_push_same[OF assms(1,3) p] assms(2) by simp
  let ?r2 = "r1\<lparr>tail := (tail r1 + 1) mod RING_SLOTS\<rparr>"
  have "head r1 \<noteq> tail r1" using h1 t1 next_ne_self[OF t] by simp
  then have rd: "readNext r1 = (Some (tail r1 * FACET_SIZE), ?r2)" by (simp add: readNext_some)
  have "available ?r2 = 0" using h1 t1 by (simp add: available_def)
  then show ?thesis
    using p rd s1 t1 by (simp add: slot_of_def)
qed

text \<open>
  Claim C3. On an empty ring (\<open>head = tail\<close>), pushing one vector of length
  \<open>FACET_SIZE\<close> and reading at once returns a view that holds the vector pushed; pushing
  \<open>k \<le> RING_SLOTS - 1\<close> vectors and then reading \<open>k\<close> times returns \<open>k\<close> views that
  hold the vectors in the order pushed, and leaves \<open>available() = 0\<close>.
\<close>

theorem C3_fifo_roundtrip:
  assumes "ring_ok r" "head r = tail r"
    and "length v = FACET_SIZE"
    and "length vs \<le> RING_SLOTS - 1" "\<forall>w\<in>set vs. length w = FACET_SIZE"
  shows "(\<exists>i r1 off r2.
            push r v = Inr (i, r1) \<and> readNext r1 = (Some off, r2) \<and>
            view_get (slots r2) off = v) \<and>
         (\<exists>r1 offs r2.
            push_all r vs = Inr r1 \<and>
            read_times (length vs) r1 = (map Some offs, r2) \<and>
            length offs = length vs \<and>
            map (view_get (slots r2)) offs = vs \<and>
            available r2 = 0)"
proof
  show "\<exists>i r1 off r2. push r v = Inr (i, r1) \<and> readNext r1 = (Some off, r2) \<and>
          view_get (slots r2) off = v"
    using push_then_read[OF assms(1,2,3)] by blast
next
  have a0: "available r = 0" using assms(2) by (simp add: available_def)
  have q0: "queue r = []" using assms(1,2) by (rule queue_empty)
  obtain r1 where r1: "push_all r vs = Inr r1" "ring_ok r1" "queue r1 = vs"
      "available r1 = length vs"
    using push_all_ok[OF assms(1) assms(5)] assms(4) a0 q0 by auto
  obtain offs r2 where r2: "read_times (length vs) r1 = (map Some offs, r2)"
      "map (view_get (slots r2)) offs = take (length vs) (queue r1)"
      "available r2 = available r1 - length vs" "length offs = length vs"
    using read_times_ok[OF r1(2), of "length vs"] r1(4) by auto
  show "\<exists>r1 offs r2. push_all r vs = Inr r1 \<and>
          read_times (length vs) r1 = (map Some offs, r2) \<and> length offs = length vs \<and>
          map (view_get (slots r2)) offs = vs \<and> available r2 = 0"
    using r1 r2 by auto
qed

theorem C3_fifo_roundtrip_witness:
  "ring_ok new_ring \<and> head new_ring = tail new_ring \<and>
   length (replicate FACET_SIZE (7::real)) = FACET_SIZE \<and>
   length [replicate FACET_SIZE (1::real), replicate FACET_SIZE 2] \<le> RING_SLOTS - 1 \<and>
   list_all (\<lambda>w. length w = FACET_SIZE) [replicate FACET_SIZE (1::real), replicate FACET_SIZE 2] \<and>
   (\<exists>i r1 off r2.
      push new_ring (replicate FACET_SIZE 7) = Inr (i, r1) \<and> readNext r1 = (Some off, r2) \<and>
      view_get (slots r2) off = replicate FACET_SIZE 7) \<and>
   (\<exists>r1 offs r2.
      push_all new_ring [replicate FACET_SIZE 1, replicate FACET_SIZE 2] = Inr r1 \<and>
      read_times 2 r1 = (map Some offs, r2) \<and>
      length offs = 2 \<and>
      map (view_get (slots r2)) offs = [replicate FACET_SIZE 1, replicate FACET_SIZE 2] \<and>
      available r2 = 0)"
proof -
  have h1: "ring_ok new_ring" by (rule new_ring_ok)
  have h2: "head new_ring = tail new_ring" by (simp add: new_ring_def)
  have h3: "length (replicate FACET_SIZE (7::real)) = FACET_SIZE" by simp
  have h4: "length [replicate FACET_SIZE (1::real), replicate FACET_SIZE 2] \<le> RING_SLOTS - 1"
    by (simp add: RING_SLOTS_def)
  have h5: "\<forall>w\<in>set [replicate FACET_SIZE (1::real), replicate FACET_SIZE 2]. length w = FACET_SIZE"
    by simp
  have l: "length [replicate FACET_SIZE (1::real), replicate FACET_SIZE 2] = 2" by simp
  have h5': "list_all (\<lambda>w. length w = FACET_SIZE)
      [replicate FACET_SIZE (1::real), replicate FACET_SIZE 2]"
    by simp
  show ?thesis
    using C3_fifo_roundtrip[OF h1 h2 h3 h4 h5] h1 h2 h3 h4 h5' unfolding l by blast
qed

text \<open>
  Claim C10. A state with \<open>head = tail\<close> and \<open>generation > 0\<close> is reachable: push 31
  vectors into a new ring, read all 31, push one more (the head wraps to slot 0 and the
  generation becomes 1) and read it. Every pushed item has then been consumed, yet
  \<open>readNext\<close> does not return \<open>null\<close>: it returns the view of the slot at \<open>tail\<close>,
  which still holds the first vector pushed (the same view the very first read returned),
  and advances \<open>tail\<close> by one. \<open>readNext\<close> returns \<open>null\<close> exactly when
  \<open>head = tail\<close> and \<open>generation = 0\<close>.
\<close>

theorem C10_stale_read_after_wrap:
  assumes "length vs = RING_SLOTS - 1" "\<forall>v\<in>set vs. length v = FACET_SIZE" "length v = FACET_SIZE"
  shows "(\<exists>r1 offs r2 r3 off r4.
            push_all new_ring vs = Inr r1 \<and>
            read_times (RING_SLOTS - 1) r1 = (map Some offs, r2) \<and>
            map (view_get (slots r2)) offs = vs \<and>
            push r2 v = Inr (RING_SLOTS - 1, r3) \<and>
            readNext r3 = (Some off, r4) \<and> view_get (slots r4) off = v \<and>
            head r4 = tail r4 \<and> 0 < generation r4 \<and> available r4 = 0 \<and>
            readNext r4 = (Some (tail r4 * FACET_SIZE), r4\<lparr>tail := (tail r4 + 1) mod RING_SLOTS\<rparr>) \<and>
            hd offs = tail r4 * FACET_SIZE \<and>
            view_get (slots r4) (tail r4 * FACET_SIZE) = hd vs) \<and>
         (\<forall>r. (fst (readNext r) = None) = (head r = tail r \<and> generation r = 0)) \<and>
         (\<forall>r. fst (readNext r) \<noteq> None \<longrightarrow>
                readNext r = (Some (tail r * FACET_SIZE), r\<lparr>tail := (tail r + 1) mod RING_SLOTS\<rparr>))"
proof (intro conjI allI impI)
  obtain r1 where r1: "push_all new_ring vs = Inr r1" "ring_ok r1" "head r1 = RING_SLOTS - 1"
      "tail r1 = 0" "generation r1 = 0" "queue r1 = vs" "available r1 = RING_SLOTS - 1"
    using fresh_pushes[OF new_ring_ok _ _ _ assms(1,2)] by (auto simp: new_ring_def)
  obtain offs r2 where r2: "read_times (RING_SLOTS - 1) r1 = (map Some offs, r2)"
      "map (view_get (slots r2)) offs = take (RING_SLOTS - 1) (queue r1)"
      "ring_ok r2" "slots r2 = slots r1" "head r2 = head r1" "generation r2 = generation r1"
      "tail r2 = (tail r1 + (RING_SLOTS - 1)) mod RING_SLOTS"
    using read_times_ok[OF r1(2), of "RING_SLOTS - 1"] r1(7) by auto
  have t2: "tail r2 = RING_SLOTS - 1" using r2(7) r1(4) by (simp add: RING_SLOTS_def)
  have h2: "head r2 = RING_SLOTS - 1" using r2(5) r1(3) by simp
  have ne1: "head r1 \<noteq> tail r1" using r1(3,4) by (simp add: RING_SLOTS_def)
  have "RING_SLOTS - 1 = Suc 30" by (simp add: RING_SLOTS_def)
  then have "read_times (Suc 30) r1 = (map Some offs, r2)" using r2(1) by metis
  from read_times_hd[OF this ne1] have hd0: "hd offs = 0" using r1(4) by simp
  have s10: "slot_of r1 0 = hd vs"
    using read_queue[OF r1(2) ne1] r1(4,6) by simp
  have "(head r2 + 1) mod RING_SLOTS \<noteq> tail r2" using h2 t2 by (simp add: RING_SLOTS_def)
  then obtain r3 where r3: "push r2 v = Inr (head r2, r3)"
    using push_succeeds[OF assms(3)] by blast
  have h3: "head r3 = 0" using push_header(2)[OF r3] h2 by (simp add: RING_SLOTS_def)
  have t3: "tail r3 = RING_SLOTS - 1" using push_header(3)[OF r3] t2 by simp
  have g3: "generation r3 = 1"
    using push_header(4)[OF r3] h2 r2(6) r1(5) by (simp add: RING_SLOTS_def)
  have s3new: "slot_of r3 (RING_SLOTS - 1) = v"
    using slot_of_push_same[OF r2(3) assms(3) r3] h2 by simp
  have s3old: "slot_of r3 0 = hd vs"
    using slot_of_push_other[OF r2(3) assms(3) r3, of 0] h2 r2(4) s10
    by (simp add: RING_SLOTS_def slot_of_def)
  let ?r4 = "r3\<lparr>tail := (tail r3 + 1) mod RING_SLOTS\<rparr>"
  have rd3: "readNext r3 = (Some (tail r3 * FACET_SIZE), ?r4)"
    using h3 t3 by (intro readNext_some) (simp add: RING_SLOTS_def)
  have t4: "tail ?r4 = 0" using t3 by (simp add: RING_SLOTS_def)
  have rd4: "readNext ?r4 = (Some (tail ?r4 * FACET_SIZE), ?r4\<lparr>tail := (tail ?r4 + 1) mod RING_SLOTS\<rparr>)"
    using g3 by (intro readNext_some) simp
  have "push_all new_ring vs = Inr r1 \<and>
        read_times (RING_SLOTS - 1) r1 = (map Some offs, r2) \<and>
        map (view_get (slots r2)) offs = vs \<and>
        push r2 v = Inr (RING_SLOTS - 1, r3) \<and>
        readNext r3 = (Some (tail r3 * FACET_SIZE), ?r4) \<and>
        view_get (slots ?r4) (tail r3 * FACET_SIZE) = v \<and>
        head ?r4 = tail ?r4 \<and> 0 < generation ?r4 \<and> available ?r4 = 0 \<and>
        readNext ?r4 = (Some (tail ?r4 * FACET_SIZE), ?r4\<lparr>tail := (tail ?r4 + 1) mod RING_SLOTS\<rparr>) \<and>
        hd offs = tail ?r4 * FACET_SIZE \<and>
        view_get (slots ?r4) (tail ?r4 * FACET_SIZE) = hd vs"
  proof (intro conjI)
    show "map (view_get (slots r2)) offs = vs" using r2(2) r1(6) assms(1) by simp
    show "push r2 v = Inr (RING_SLOTS - 1, r3)" using r3 h2 by simp
    show "view_get (slots ?r4) (tail r3 * FACET_SIZE) = v" using s3new t3 by (simp add: slot_of_def)
    show "head ?r4 = tail ?r4" using h3 t4 by simp
    show "0 < generation ?r4" using g3 by simp
    show "available ?r4 = 0" using h3 t4 by (simp add: available_def)
    show "hd offs = tail ?r4 * FACET_SIZE" using hd0 t4 by simp
    show "view_get (slots ?r4) (tail ?r4 * FACET_SIZE) = hd vs"
      using s3old t4 by (simp add: slot_of_def)
  qed (rule r1(1) r2(1) rd3 rd4)+
  then show "\<exists>r1 offs r2 r3 off r4.
            push_all new_ring vs = Inr r1 \<and>
            read_times (RING_SLOTS - 1) r1 = (map Some offs, r2) \<and>
            map (view_get (slots r2)) offs = vs \<and>
            push r2 v = Inr (RING_SLOTS - 1, r3) \<and>
            readNext r3 = (Some off, r4) \<and> view_get (slots r4) off = v \<and>
            head r4 = tail r4 \<and> 0 < generation r4 \<and> available r4 = 0 \<and>
            readNext r4 = (Some (tail r4 * FACET_SIZE), r4\<lparr>tail := (tail r4 + 1) mod RING_SLOTS\<rparr>) \<and>
            hd offs = tail r4 * FACET_SIZE \<and>
            view_get (slots r4) (tail r4 * FACET_SIZE) = hd vs"
    by blast
next
  fix r show "(fst (readNext r) = None) = (head r = tail r \<and> generation r = 0)"
    by (rule readNext_none_iff)
next
  fix r assume "fst (readNext r) \<noteq> None"
  then have "head r \<noteq> tail r \<or> generation r \<noteq> 0" by (simp add: readNext_none_iff)
  then show "readNext r = (Some (tail r * FACET_SIZE), r\<lparr>tail := (tail r + 1) mod RING_SLOTS\<rparr>)"
    by (rule readNext_some)
qed

theorem C10_stale_read_after_wrap_witness:
  "length (map (\<lambda>i. replicate FACET_SIZE (real i)) [0..<31]) = RING_SLOTS - 1 \<and>
   list_all (\<lambda>w. length w = FACET_SIZE) (map (\<lambda>i. replicate FACET_SIZE (real i)) [0..<31]) \<and>
   length (replicate FACET_SIZE (31::real)) = FACET_SIZE \<and>
   (\<exists>r1 offs r2 r3 off r4.
      push_all new_ring (map (\<lambda>i. replicate FACET_SIZE (real i)) [0..<31]) = Inr r1 \<and>
      read_times (RING_SLOTS - 1) r1 = (map Some offs, r2) \<and>
      push r2 (replicate FACET_SIZE 31) = Inr (RING_SLOTS - 1, r3) \<and>
      readNext r3 = (Some off, r4) \<and>
      head r4 = tail r4 \<and> 0 < generation r4 \<and> available r4 = 0 \<and>
      readNext r4 = (Some (tail r4 * FACET_SIZE), r4\<lparr>tail := (tail r4 + 1) mod RING_SLOTS\<rparr>) \<and>
      view_get (slots r4) (tail r4 * FACET_SIZE) = replicate FACET_SIZE 0)"
proof -
  let ?vs = "map (\<lambda>i. replicate FACET_SIZE (real i)) [0..<31]"
  have h1: "length ?vs = RING_SLOTS - 1" by (simp add: RING_SLOTS_def)
  have h2: "\<forall>w\<in>set ?vs. length w = FACET_SIZE" by simp
  have h3: "length (replicate FACET_SIZE (31::real)) = FACET_SIZE" by simp
  have hd: "hd ?vs = replicate FACET_SIZE 0" by (simp add: upt_conv_Cons)
  have h2': "list_all (\<lambda>w. length w = FACET_SIZE) ?vs"
    by (simp add: list_all_iff)
  show ?thesis
    using C10_stale_read_after_wrap[OF h1 h2 h3] h1 h2' h3 unfolding hd by blast
qed

section \<open>The facet arena\<close>

lemma facet_bound: "g < NUM_FACETS \<Longrightarrow> g * FACET_SIZE + FACET_SIZE \<le> MIND_SIZE_BYTES div 4"
proof -
  assume "g < NUM_FACETS"
  then have "g * FACET_SIZE + FACET_SIZE \<le> NUM_FACETS * FACET_SIZE" by (rule slot_bound)
  also have "\<dots> \<le> MIND_SIZE_BYTES div 4"
    by (simp add: NUM_FACETS_def FACET_SIZE_def MIND_SIZE_BYTES_def)
  finally show ?thesis .
qed

lemma getFacet_ok: "0 \<le> f \<Longrightarrow> f < int NUM_FACETS \<Longrightarrow> getFacet f = Inr (nat f * FACET_SIZE)"
  by (simp add: getFacet_def)

lemma getFacet_invalid: "f < 0 \<or> int NUM_FACETS \<le> f \<Longrightarrow> getFacet f = Inl (InvalidFacet f)"
  by (auto simp: getFacet_def)

lemma new_mind_ok: "mind_ok new_mind"
  by (simp add: mind_ok_def new_mind_def list_all_iff)

text \<open>The loop of \<open>applyGradient\<close> after \<open>n\<close> rounds.\<close>

lemma gradient_fold:
  assumes "n \<le> FACET_SIZE" "off + FACET_SIZE \<le> length m" "length snap = FACET_SIZE"
  shows "\<exists>m' snap'.
           fold (gradient_step off delta lr mom) [0..<n] (m, snap) = (m', snap') \<and>
           length m' = length m \<and> length snap' = length snap \<and>
           (\<forall>j < length m. m' ! j =
              (if off \<le> j \<and> j < off + n
               then m ! j + (lr * delta ! (j - off) + mom * (m ! j - snap ! (j - off)))
               else m ! j)) \<and>
           (\<forall>i < FACET_SIZE. snap' ! i =
              (if i < n then m ! (off + i) + (lr * delta ! i + mom * (m ! (off + i) - snap ! i))
               else snap ! i))"
  using assms(1)
proof (induction n)
  case 0
  then show ?case by simp
next
  case (Suc n)
  then obtain m1 snap1 where ih:
    "fold (gradient_step off delta lr mom) [0..<n] (m, snap) = (m1, snap1)"
    "length m1 = length m" "length snap1 = length snap"
    "\<forall>j < length m. m1 ! j =
       (if off \<le> j \<and> j < off + n
        then m ! j + (lr * delta ! (j - off) + mom * (m ! j - snap ! (j - off)))
        else m ! j)"
    "\<forall>i < FACET_SIZE. snap1 ! i =
       (if i < n then m ! (off + i) + (lr * delta ! i + mom * (m ! (off + i) - snap ! i))
        else snap ! i)"
    by auto
  have n: "n < FACET_SIZE" "off + n < length m" using Suc.prems assms(2) by auto
  have a: "m1 ! (off + n) = m ! (off + n)" using ih(4) n by simp
  have b: "snap1 ! n = snap ! n" using ih(5) n by simp
  let ?t = "m ! (off + n) + (lr * delta ! n + mom * (m ! (off + n) - snap ! n))"
  have step: "fold (gradient_step off delta lr mom) [0..<Suc n] (m, snap) =
      (m1[off + n := ?t], snap1[n := ?t])"
    using ih(1) a b by (simp add: gradient_step_def Let_def)
  have "\<forall>j < length m. m1[off + n := ?t] ! j =
       (if off \<le> j \<and> j < off + Suc n
        then m ! j + (lr * delta ! (j - off) + mom * (m ! j - snap ! (j - off)))
        else m ! j)"
    using ih(2,4) n by (auto simp: nth_list_update less_Suc_eq)
  moreover have "\<forall>i < FACET_SIZE. snap1[n := ?t] ! i =
       (if i < Suc n then m ! (off + i) + (lr * delta ! i + mom * (m ! (off + i) - snap ! i))
        else snap ! i)"
    using ih(3,5) n assms(3) by (auto simp: nth_list_update less_Suc_eq)
  ultimately show ?case
    using step ih(2,3) by simp
qed

lemma snapshot_length:
  "mind_ok s \<Longrightarrow> g < NUM_FACETS \<Longrightarrow> length (lastSnapshot s ! g) = FACET_SIZE"
  by (simp add: mind_ok_def list_all_length)

lemma mind_ok_update:
  assumes "mind_ok s" "length m' = length (mind s)" "length v = FACET_SIZE"
  shows "mind_ok (s\<lparr>mind := m', lastSnapshot := (lastSnapshot s)[g := v]\<rparr>)"
  using assms
  by (cases "g < length (lastSnapshot s)")
    (auto simp: mind_ok_def list_all_length nth_list_update)

lemma outside_facet:
  assumes "g \<noteq> k" "j < FACET_SIZE"
  shows "\<not> (k * FACET_SIZE \<le> g * FACET_SIZE + j \<and> g * FACET_SIZE + j < k * FACET_SIZE + FACET_SIZE)"
  using slot_disjoint[OF assms(1), of FACET_SIZE] assms(2) by auto

lemma applyGradient_effect:
  assumes ok: "mind_ok s" and f: "0 \<le> f" "f < int NUM_FACETS" and d: "length delta = FACET_SIZE"
  shows "\<exists>s'. applyGradient s f delta lr mom = Inr s' \<and> mind_ok s' \<and>
     facet_of s' (nat f) =
       map (\<lambda>i. facet_of s (nat f) ! i +
              (lr * delta ! i + mom * (facet_of s (nat f) ! i - lastSnapshot s ! nat f ! i)))
         [0..<FACET_SIZE] \<and>
     lastSnapshot s' ! nat f = facet_of s' (nat f) \<and>
     (\<forall>g<NUM_FACETS. g \<noteq> nat f \<longrightarrow>
        facet_of s' g = facet_of s g \<and> lastSnapshot s' ! g = lastSnapshot s ! g)"
proof -
  let ?k = "nat f" and ?off = "nat f * FACET_SIZE"
  have k: "?k < NUM_FACETS" using f by simp
  have lm: "length (mind s) = MIND_SIZE_BYTES div 4" using ok by (simp add: mind_ok_def)
  have ls: "length (lastSnapshot s) = NUM_FACETS" using ok by (simp add: mind_ok_def)
  have b: "?off + FACET_SIZE \<le> length (mind s)" using facet_bound[OF k] lm by simp
  have sl: "length (lastSnapshot s ! ?k) = FACET_SIZE" using ok k by (rule snapshot_length)
  obtain m' snap' where g:
    "fold (gradient_step ?off delta lr mom) [0..<FACET_SIZE] (mind s, lastSnapshot s ! ?k) = (m', snap')"
    "length m' = length (mind s)" "length snap' = length (lastSnapshot s ! ?k)"
    "\<forall>j < length (mind s). m' ! j =
       (if ?off \<le> j \<and> j < ?off + FACET_SIZE
        then mind s ! j + (lr * delta ! (j - ?off) + mom * (mind s ! j - lastSnapshot s ! ?k ! (j - ?off)))
        else mind s ! j)"
    "\<forall>i < FACET_SIZE. snap' ! i =
       (if i < FACET_SIZE
        then mind s ! (?off + i) + (lr * delta ! i + mom * (mind s ! (?off + i) - lastSnapshot s ! ?k ! i))
        else lastSnapshot s ! ?k ! i)"
    using gradient_fold[OF le_refl b sl, of delta lr mom] by blast
  let ?s' = "s\<lparr>mind := m', lastSnapshot := (lastSnapshot s)[?k := snap']\<rparr>"
  have res: "applyGradient s f delta lr mom = Inr ?s'"
    using d getFacet_ok[OF f] g(1) by (simp add: applyGradient_def)
  have ok': "mind_ok ?s'" using ok g(2) g(3) sl by (intro mind_ok_update) simp_all
  have b': "?off + FACET_SIZE \<le> length m'" using b g(2) by simp
  have own: "facet_of ?s' ?k =
       map (\<lambda>i. facet_of s ?k ! i +
              (lr * delta ! i + mom * (facet_of s ?k ! i - lastSnapshot s ! ?k ! i)))
         [0..<FACET_SIZE]"
  proof (rule nth_equalityI)
    show "length (facet_of ?s' ?k) = length (map (\<lambda>i. facet_of s ?k ! i +
              (lr * delta ! i + mom * (facet_of s ?k ! i - lastSnapshot s ! ?k ! i))) [0..<FACET_SIZE])"
      using b' by (simp add: facet_of_def length_view_get)
  next
    fix j assume "j < length (facet_of ?s' ?k)"
    then have j: "j < FACET_SIZE" using b' by (simp add: facet_of_def length_view_get)
    then have "?off + j < length (mind s)" using b by simp
    then show "facet_of ?s' ?k ! j = map (\<lambda>i. facet_of s ?k ! i +
              (lr * delta ! i + mom * (facet_of s ?k ! i - lastSnapshot s ! ?k ! i))) [0..<FACET_SIZE] ! j"
      using j b b' g(4) by (simp add: facet_of_def nth_view_get)
  qed
  have snap: "lastSnapshot ?s' ! ?k = facet_of ?s' ?k"
  proof (rule nth_equalityI)
    show "length (lastSnapshot ?s' ! ?k) = length (facet_of ?s' ?k)"
      using b' k ls g(3) sl by (simp add: facet_of_def length_view_get)
  next
    fix j assume "j < length (lastSnapshot ?s' ! ?k)"
    then have j: "j < FACET_SIZE" using k ls g(3) sl by simp
    then have "?off + j < length (mind s)" using b by simp
    then show "lastSnapshot ?s' ! ?k ! j = facet_of ?s' ?k ! j"
      using j b b' g(4,5) k ls by (simp add: facet_of_def nth_view_get)
  qed
  have frame: "facet_of ?s' g = facet_of s g \<and> lastSnapshot ?s' ! g = lastSnapshot s ! g"
    if "g < NUM_FACETS" "g \<noteq> ?k" for g
  proof
    have bg: "g * FACET_SIZE + FACET_SIZE \<le> length (mind s)"
      using facet_bound[OF that(1)] lm by simp
    show "facet_of ?s' g = facet_of s g"
    proof (rule nth_equalityI)
      show "length (facet_of ?s' g) = length (facet_of s g)"
        using bg g(2) by (simp add: facet_of_def length_view_get)
    next
      fix j assume "j < length (facet_of ?s' g)"
      then have j: "j < FACET_SIZE" using bg g(2) by (simp add: facet_of_def length_view_get)
      then have "g * FACET_SIZE + j < length (mind s)" using bg by simp
      then have "m' ! (g * FACET_SIZE + j) = mind s ! (g * FACET_SIZE + j)"
        using g(4) outside_facet[OF that(2) j] by auto
      then show "facet_of ?s' g ! j = facet_of s g ! j"
        using j bg g(2) by (simp add: facet_of_def nth_view_get)
    qed
    show "lastSnapshot ?s' ! g = lastSnapshot s ! g" using that(2) by simp
  qed
  show ?thesis
    using res ok' own snap frame by blast
qed

lemma writeFacet_effect:
  assumes ok: "mind_ok s" and f: "0 \<le> f" "f < int NUM_FACETS" and d: "length v = FACET_SIZE"
  shows "\<exists>s'. writeFacet s f v = Inr s' \<and> mind_ok s' \<and> facet_of s' (nat f) = v \<and>
     lastSnapshot s' = lastSnapshot s \<and>
     (\<forall>g<NUM_FACETS. g \<noteq> nat f \<longrightarrow> facet_of s' g = facet_of s g)"
proof -
  let ?k = "nat f" and ?off = "nat f * FACET_SIZE"
  have k: "?k < NUM_FACETS" using f by simp
  have lm: "length (mind s) = MIND_SIZE_BYTES div 4" using ok by (simp add: mind_ok_def)
  have b: "?off + FACET_SIZE \<le> length (mind s)" using facet_bound[OF k] lm by simp
  let ?s' = "s\<lparr>mind := view_set (mind s) ?off v\<rparr>"
  have res: "writeFacet s f v = Inr ?s'"
    using d getFacet_ok[OF f] by (simp add: writeFacet_def)
  have ok': "mind_ok ?s'" using ok b d by (simp add: mind_ok_def length_view_set)
  have own: "facet_of ?s' ?k = v" using view_get_set_same[OF b d] by (simp add: facet_of_def)
  have frame: "facet_of ?s' g = facet_of s g" if "g < NUM_FACETS" "g \<noteq> ?k" for g
  proof -
    have bg: "g * FACET_SIZE + FACET_SIZE \<le> length (mind s)"
      using facet_bound[OF that(1)] lm by simp
    show ?thesis
      using view_get_set_other[OF b d bg] slot_disjoint[OF that(2), of FACET_SIZE]
      by (simp add: facet_of_def)
  qed
  show ?thesis using res ok' own frame by simp
qed

lemma resetFacet_effect:
  assumes ok: "mind_ok s" and f: "0 \<le> f" "f < int NUM_FACETS"
  shows "\<exists>s'. resetFacet s f = Inr s' \<and> mind_ok s' \<and>
     facet_of s' (nat f) = replicate FACET_SIZE 0 \<and>
     lastSnapshot s' ! nat f = replicate FACET_SIZE 0 \<and>
     (\<forall>g<NUM_FACETS. g \<noteq> nat f \<longrightarrow>
        facet_of s' g = facet_of s g \<and> lastSnapshot s' ! g = lastSnapshot s ! g)"
proof -
  let ?k = "nat f" and ?off = "nat f * FACET_SIZE"
  let ?z = "replicate FACET_SIZE (0::real)"
  have k: "?k < NUM_FACETS" using f by simp
  have lm: "length (mind s) = MIND_SIZE_BYTES div 4" using ok by (simp add: mind_ok_def)
  have ls: "length (lastSnapshot s) = NUM_FACETS" using ok by (simp add: mind_ok_def)
  have b: "?off + FACET_SIZE \<le> length (mind s)" using facet_bound[OF k] lm by simp
  have sl: "length (lastSnapshot s ! ?k) = FACET_SIZE" using ok k by (rule snapshot_length)
  have z: "length ?z = FACET_SIZE" by simp
  let ?s' = "s\<lparr>mind := view_set (mind s) ?off ?z, lastSnapshot := (lastSnapshot s)[?k := ?z]\<rparr>"
  have res: "resetFacet s f = Inr ?s'"
    using getFacet_ok[OF f] sl by (simp add: resetFacet_def view_fill_def)
  have ok': "mind_ok ?s'" using ok b by (intro mind_ok_update) (simp_all add: length_view_set)
  have own: "facet_of ?s' ?k = ?z" using view_get_set_same[OF b z] by (simp add: facet_of_def)
  have snap: "lastSnapshot ?s' ! ?k = ?z" using k ls by simp
  have frame: "facet_of ?s' g = facet_of s g \<and> lastSnapshot ?s' ! g = lastSnapshot s ! g"
    if "g < NUM_FACETS" "g \<noteq> ?k" for g
  proof -
    have bg: "g * FACET_SIZE + FACET_SIZE \<le> length (mind s)"
      using facet_bound[OF that(1)] lm by simp
    show ?thesis
      using view_get_set_other[OF b z bg] slot_disjoint[OF that(2), of FACET_SIZE] that(2)
      by (simp add: facet_of_def)
  qed
  show ?thesis using res ok' own snap frame by blast
qed




text \<open>
  Claim C9. For a facet id \<open>f\<close> in \<open>[0, NUM_FACETS)\<close>, \<open>writeFacet\<close>, \<open>applyGradient\<close>
  and \<open>resetFacet\<close> on \<open>f\<close> leave the slot and the shadow vector of every other facet
  \<open>g\<close> as they were, and \<open>writeFacet\<close> leaves every shadow vector as it was.
\<close>

theorem C9_no_cross_slot_effects:
  assumes "mind_ok s" "0 \<le> f" "f < int NUM_FACETS" "g < NUM_FACETS" "g \<noteq> nat f"
    and "length v = FACET_SIZE" "length delta = FACET_SIZE"
  shows "(\<exists>s'. writeFacet s f v = Inr s' \<and>
            facet_of s' g = facet_of s g \<and> lastSnapshot s' = lastSnapshot s) \<and>
         (\<exists>s'. applyGradient s f delta lr mom = Inr s' \<and>
            facet_of s' g = facet_of s g \<and> lastSnapshot s' ! g = lastSnapshot s ! g) \<and>
         (\<exists>s'. resetFacet s f = Inr s' \<and>
            facet_of s' g = facet_of s g \<and> lastSnapshot s' ! g = lastSnapshot s ! g)"
proof (intro conjI)
  show "\<exists>s'. writeFacet s f v = Inr s' \<and>
          facet_of s' g = facet_of s g \<and> lastSnapshot s' = lastSnapshot s"
    using writeFacet_effect[OF assms(1,2,3,6)] assms(4,5) by auto
  show "\<exists>s'. applyGradient s f delta lr mom = Inr s' \<and>
          facet_of s' g = facet_of s g \<and> lastSnapshot s' ! g = lastSnapshot s ! g"
    using applyGradient_effect[OF assms(1,2,3,7), of lr mom] assms(4,5) by auto
  show "\<exists>s'. resetFacet s f = Inr s' \<and>
          facet_of s' g = facet_of s g \<and> lastSnapshot s' ! g = lastSnapshot s ! g"
    using resetFacet_effect[OF assms(1,2,3)] assms(4,5) by auto
qed

theorem C9_no_cross_slot_effects_witness:
  "mind_ok new_mind \<and> (0::int) \<le> 3 \<and> (3::int) < int NUM_FACETS \<and> 5 < NUM_FACETS \<and>
   (5::nat) \<noteq> nat 3 \<and> length (replicate FACET_SIZE (2::real)) = FACET_SIZE \<and>
   (\<exists>s'. writeFacet new_mind 3 (replicate FACET_SIZE 2) = Inr s' \<and>
      facet_of s' 5 = facet_of new_mind 5 \<and> lastSnapshot s' = lastSnapshot new_mind) \<and>
   (\<exists>s'. applyGradient new_mind 3 (replicate FACET_SIZE 2) (1/10) (9/10) = Inr s' \<and>
      facet_of s' 5 = facet_of new_mind 5 \<and> lastSnapshot s' ! 5 = lastSnapshot new_mind ! 5) \<and>
   (\<exists>s'. resetFacet new_mind 3 = Inr s' \<and>
      facet_of s' 5 = facet_of new_mind 5 \<and> lastSnapshot s' ! 5 = lastSnapshot new_mind ! 5)"
proof -
  have h: "mind_ok new_mind" "(0::int) \<le> 3" "(3::int) < int NUM_FACETS" "5 < NUM_FACETS"
    "(5::nat) \<noteq> nat 3" "length (replicate FACET_SIZE (2::real)) = FACET_SIZE"
    by (simp_all add: new_mind_ok NUM_FACETS_def)
  show ?thesis
    using C9_no_cross_slot_effects[OF h(1,2,3,4,5,6,6), of "1/10" "9/10"] h by blast
qed




section \<open>The threshold monitor\<close>

lemma adapt_some:
  "th f = Some cfg \<Longrightarrow>
   adapt th f s =
     th(f \<mapsto> cfg\<lparr>threshold :=
        max 0.5 (min 0.95 (threshold cfg - learningRate cfg * (threshold cfg - s)))\<rparr>)"
  by (simp add: adapt_def Let_def)

lemma adapt_none: "th f = None \<Longrightarrow> adapt th f s = th"
  by (simp add: adapt_def)

lemma clamp_range: "0.5 \<le> max 0.5 (min 0.95 (x::real)) \<and> max 0.5 (min 0.95 x) \<le> 0.95"
  by (simp add: max_def min_def)

lemma clamp_decrease:
  assumes "s < t" "0 < lr" "0.5 < (t::real)"
  shows "max 0.5 (min 0.95 (t - lr * (t - s))) < t"
proof -
  have "0 < lr * (t - s)" using assms(1,2) by simp
  then have "t - lr * (t - s) < t" by simp
  then show ?thesis using assms(3) by (simp add: max_def min_def)
qed

text \<open>
  Claim C5, as the code has it. For a monitored facet with threshold \<open>t\<close> and learning
  rate \<open>lr\<close>, \<open>adapt(facet, s)\<close> stores \<open>t - lr * (t - s)\<close> clamped into
  \<open>[0.5, 0.95]\<close> and changes nothing else; the stored threshold lies in
  \<open>[0.5, 0.95]\<close> whatever \<open>s\<close> is; and it is strictly below \<open>t\<close> when \<open>s < t\<close>,
  \<open>lr > 0\<close> and \<open>t > 0.5\<close>.
\<close>

theorem C5_adapt_clamped_step:
  assumes "th f = Some cfg"
  shows "\<exists>cfg'. adapt th f s f = Some cfg' \<and>
           cfg' = cfg\<lparr>threshold := threshold cfg'\<rparr> \<and>
           threshold cfg' =
             max 0.5 (min 0.95 (threshold cfg - learningRate cfg * (threshold cfg - s))) \<and>
           0.5 \<le> threshold cfg' \<and> threshold cfg' \<le> 0.95 \<and>
           (s < threshold cfg \<and> 0 < learningRate cfg \<and> 0.5 < threshold cfg \<longrightarrow>
              threshold cfg' < threshold cfg)"
proof -
  let ?n = "max 0.5 (min 0.95 (threshold cfg - learningRate cfg * (threshold cfg - s)))"
  let ?cfg' = "cfg\<lparr>threshold := ?n\<rparr>"
  have t: "threshold ?cfg' = ?n" by simp
  have a: "adapt th f s f = Some ?cfg'" using assms by (simp add: adapt_some)
  have r: "0.5 \<le> ?n \<and> ?n \<le> 0.95" by (rule clamp_range)
  have d: "s < threshold cfg \<and> 0 < learningRate cfg \<and> 0.5 < threshold cfg \<longrightarrow>
      ?n < threshold cfg"
    using clamp_decrease[of s "threshold cfg" "learningRate cfg"] by blast
  show ?thesis
  proof (intro exI[of _ ?cfg'] conjI)
    show "adapt th f s f = Some ?cfg'" by (rule a)
    show "?cfg' = cfg\<lparr>threshold := threshold ?cfg'\<rparr>" by simp
    show "threshold ?cfg' = ?n" by (rule t)
    show "0.5 \<le> threshold ?cfg'" unfolding t using r by (rule conjunct1)
    show "threshold ?cfg' \<le> 0.95" unfolding t using r by (rule conjunct2)
    show "s < threshold cfg \<and> 0 < learningRate cfg \<and> 0.5 < threshold cfg \<longrightarrow>
      threshold ?cfg' < threshold cfg" unfolding t by (rule d)
  qed
qed

theorem C5_adapt_clamped_step_witness:
  "new_thresholds 0 = Some (defaultCfg 0) \<and>
   (\<exists>cfg'. adapt new_thresholds 0 0.3 0 = Some cfg' \<and>
      cfg' = (defaultCfg 0)\<lparr>threshold := threshold cfg'\<rparr> \<and>
      threshold cfg' = 0.696 \<and>
      0.5 \<le> threshold cfg' \<and> threshold cfg' \<le> 0.95 \<and>
      threshold cfg' < threshold (defaultCfg 0))"
proof -
  have h: "new_thresholds 0 = Some (defaultCfg 0)"
    by (simp add: new_thresholds_def monitored_def)
  have v: "max 0.5 (min 0.95 (threshold (defaultCfg 0) -
      learningRate (defaultCfg 0) * (threshold (defaultCfg 0) - 0.3))) = (0.696::real)"
    by (simp add: defaultCfg_def)
  have p: "(0.3::real) < threshold (defaultCfg 0) \<and> 0 < learningRate (defaultCfg 0) \<and>
      0.5 < threshold (defaultCfg 0)"
    by (simp add: defaultCfg_def)
  show ?thesis
    using C5_adapt_clamped_step[of new_thresholds 0 "defaultCfg 0" "0.3", OF h] h p
    unfolding v by blast
qed

text \<open>
  Claim C5 as stated fails where it says that every \<open>s\<close> below the threshold strictly
  decreases it. With the default configuration, \<open>adapt(0, -20)\<close> brings the threshold of
  facet 0 from 0.7 to the floor 0.5, and \<open>adapt(0, 0.3)\<close> then leaves it at 0.5 although
  \<open>0.3 < 0.5\<close>. With a learning rate of 0 (set by \<open>setThreshold\<close>), \<open>adapt(0, 0.3)\<close>
  leaves a threshold of 0.8 at 0.8.
\<close>

theorem C5_counterexample:
  "map_option threshold (adapt new_thresholds 0 (-20) 0) = Some 0.5 \<and>
   map_option threshold (adapt (adapt new_thresholds 0 (-20)) 0 0.3 0) = Some 0.5 \<and>
   (0.3::real) < 0.5 \<and>
   map_option threshold
     (adapt (setThreshold new_thresholds
               \<lparr>facet = 0, threshold = 0.8, learningRate = 0, momentum = 0.9\<rparr>) 0 0.3 0)
     = Some 0.8 \<and>
   (0.3::real) < 0.8"
  by (simp add: adapt_def Let_def new_thresholds_def monitored_def defaultCfg_def
      setThreshold_def)

section \<open>Cosine similarity\<close>

lemma four_dvd_FACET_SIZE: "4 dvd FACET_SIZE"
  by (simp add: FACET_SIZE_def)

lemma stride_fits:
  assumes "(4::nat) dvd i" "4 dvd n" "i < n"
  shows "i + 4 \<le> n"
proof -
  obtain p where p: "i = 4 * p" using assms(1) by (auto simp: dvd_def)
  obtain q where q: "n = 4 * q" using assms(2) by (auto simp: dvd_def)
  have "p < q" using assms(3) p q by simp
  then show ?thesis using p q by simp
qed

lemma sum_four:
  fixes g :: "nat \<Rightarrow> real"
  assumes "i + 4 \<le> n"
  shows "sum g {i..<n} = (g i + g (i + 1) + g (i + 2) + g (i + 3)) + sum g {i + 4..<n}"
proof -
  have "{i..<n} = {i..<i + 4} \<union> {i + 4..<n}" using assms by auto
  moreover have "{i..<i + 4} \<inter> {i + 4..<n} = {}" by auto
  ultimately have "sum g {i..<n} = sum g {i..<i + 4} + sum g {i + 4..<n}"
    by (simp add: sum.union_disjoint)
  moreover have "{i..<i + 4} = {i, i + 1, i + 2, i + 3}" by auto
  ultimately show ?thesis by simp
qed

lemma cosine_loop_sums:
  assumes "4 dvd i" "i \<le> FACET_SIZE"
  shows "cosine_loop a b i (d, na, nb) =
           (d + (\<Sum>j = i..<FACET_SIZE. a ! j * b ! j),
            na + (\<Sum>j = i..<FACET_SIZE. a ! j * a ! j),
            nb + (\<Sum>j = i..<FACET_SIZE. b ! j * b ! j))"
  using assms
proof (induction a b i "(d, na, nb)" arbitrary: d na nb rule: cosine_loop.induct)
  case (1 a b i dot na nb)
  show ?case
  proof (cases "i < FACET_SIZE")
    case True
    have fit: "i + 4 \<le> FACET_SIZE"
      using stride_fits[OF "1.prems"(1) four_dvd_FACET_SIZE True] .
    have dv: "4 dvd i + 4" using "1.prems"(1) by simp
    note ih = "1.hyps"[OF True refl refl refl refl refl refl refl refl dv fit]
    let ?P = "a ! i * b ! i + a ! (i + 1) * b ! (i + 1) + a ! (i + 2) * b ! (i + 2) +
        a ! (i + 3) * b ! (i + 3)"
    let ?Q = "a ! i * a ! i + a ! (i + 1) * a ! (i + 1) + a ! (i + 2) * a ! (i + 2) +
        a ! (i + 3) * a ! (i + 3)"
    let ?R = "b ! i * b ! i + b ! (i + 1) * b ! (i + 1) + b ! (i + 2) * b ! (i + 2) +
        b ! (i + 3) * b ! (i + 3)"
    have "cosine_loop a b i (dot, na, nb) =
        cosine_loop a b (i + 4) (dot + ?P, na + ?Q, nb + ?R)"
      using True by (subst cosine_loop.simps) (simp add: Let_def)
    also have "\<dots> = (dot + ?P + (\<Sum>j = i + 4..<FACET_SIZE. a ! j * b ! j),
        na + ?Q + (\<Sum>j = i + 4..<FACET_SIZE. a ! j * a ! j),
        nb + ?R + (\<Sum>j = i + 4..<FACET_SIZE. b ! j * b ! j))"
      by (rule ih)
    also have "\<dots> = (dot + (\<Sum>j = i..<FACET_SIZE. a ! j * b ! j),
        na + (\<Sum>j = i..<FACET_SIZE. a ! j * a ! j),
        nb + (\<Sum>j = i..<FACET_SIZE. b ! j * b ! j))"
      unfolding sum_four[OF fit, of "\<lambda>j. a ! j * b ! j"]
        sum_four[OF fit, of "\<lambda>j. a ! j * a ! j"] sum_four[OF fit, of "\<lambda>j. b ! j * b ! j"]
      by (simp only: add.assoc)
    finally show ?thesis .
  next
    case False
    then have "i = FACET_SIZE" using "1.prems"(2) by simp
    then show ?thesis by (subst cosine_loop.simps) simp
  qed
qed


lemma cosine_loop_result:
  "cosine_loop a b 0 (0, 0, 0) =
     (dotp a b, (\<Sum>i<FACET_SIZE. (a ! i)\<^sup>2), (\<Sum>i<FACET_SIZE. (b ! i)\<^sup>2))"
  using cosine_loop_sums[of 0 a b 0 0 0]
  by (simp add: dotp_def atLeast0LessThan power2_eq_square)

lemma sumsq_nonneg: "0 \<le> (\<Sum>i<FACET_SIZE. ((a::real list) ! i)\<^sup>2)"
  by (simp add: sum_nonneg)

lemma cosineSimilarity_cosine:
  assumes "length a = FACET_SIZE" "length b = FACET_SIZE"
  shows "cosineSimilarity a b = Inr (cosine a b)"
proof -
  let ?A = "\<Sum>i<FACET_SIZE. (a ! i)\<^sup>2" and ?B = "\<Sum>i<FACET_SIZE. (b ! i)\<^sup>2"
  have m: "sqrt (?A * ?B) = euclid_norm a * euclid_norm b"
    by (simp add: euclid_norm_def real_sqrt_mult)
  have "cosineSimilarity a b =
      Inr (if sqrt (?A * ?B) = 0 then 0 else dotp a b / sqrt (?A * ?B))"
    using assms by (simp add: cosineSimilarity_def cosine_loop_result Let_def)
  also have "\<dots> = Inr (cosine a b)"
    unfolding m by (simp add: cosine_def)
  finally show ?thesis .
qed


lemma euclid_norm_nonneg: "0 \<le> euclid_norm a"
  by (simp add: euclid_norm_def sum_nonneg)




lemma euclid_norm_replicate: "euclid_norm (replicate FACET_SIZE c) = sqrt (real FACET_SIZE * c\<^sup>2)"
  by (simp add: euclid_norm_def)


section \<open>Routing\<close>

lemma intent_length: "mind_ok s \<Longrightarrow> length (facet_of s 0) = FACET_SIZE"
  using facet_bound[of 0]
  by (simp add: facet_of_def mind_ok_def length_view_get NUM_FACETS_def)

lemma intent_view: "getFacet 0 = Inr 0"
  by (simp add: getFacet_def NUM_FACETS_def)

lemma not_exceeds_Num: "\<not> exceeds x b \<Longrightarrow> \<exists>y. b = Num y \<and> x \<le> y"
  by (cases b) auto

lemma route_loop_spec:
  assumes "length intent = FACET_SIZE" "\<forall>t\<in>set ts. length (centroid t) = FACET_SIZE"
  shows "\<exists>best' b'. route_loop intent ts i best bestSim = Inr (best', b') \<and>
           (\<forall>j<length ts. \<not> exceeds (cosine intent (centroid (ts ! j))) b') \<and>
           ((best' = best \<and> b' = bestSim) \<or>
            (\<exists>j<length ts. best' = i + j \<and> b' = Num (cosine intent (centroid (ts ! j))))) \<and>
           (\<forall>x. bestSim = Num x \<longrightarrow> \<not> exceeds x b')"
  using assms(2)
proof (induction ts arbitrary: i best bestSim)
  case Nil
  then show ?case by simp
next
  case (Cons t ts)
  let ?c = "cosine intent (centroid t)"
  have cs: "cosineSimilarity intent (centroid t) = Inr ?c"
    using Cons.prems assms(1) by (simp add: cosineSimilarity_cosine)
  have rest: "\<forall>t\<in>set ts. length (centroid t) = FACET_SIZE" using Cons.prems by simp
  show ?case
  proof (cases "exceeds ?c bestSim")
    case True
    obtain best' b' where ih:
      "route_loop intent ts (i + 1) i (Num ?c) = Inr (best', b')"
      "\<forall>j<length ts. \<not> exceeds (cosine intent (centroid (ts ! j))) b'"
      "(best' = i \<and> b' = Num ?c) \<or>
       (\<exists>j<length ts. best' = i + 1 + j \<and> b' = Num (cosine intent (centroid (ts ! j))))"
      "\<not> exceeds ?c b'"
      using Cons.IH[OF rest, of "i + 1" i "Num ?c"] by auto
    obtain y where y: "b' = Num y" "?c \<le> y" using not_exceeds_Num[OF ih(4)] by blast
    have r: "route_loop intent (t # ts) i best bestSim = Inr (best', b')"
      using cs True ih(1) by simp
    have a: "\<forall>j<length (t # ts). \<not> exceeds (cosine intent (centroid ((t # ts) ! j))) b'"
      using ih(2,4) by (auto simp: less_Suc_eq_0_disj)
    have b: "\<exists>j<length (t # ts). best' = i + j \<and>
        b' = Num (cosine intent (centroid ((t # ts) ! j)))"
      using ih(3)
    proof
      assume "best' = i \<and> b' = Num ?c"
      then show ?thesis by (intro exI[of _ 0]) simp
    next
      assume "\<exists>j<length ts. best' = i + 1 + j \<and> b' = Num (cosine intent (centroid (ts ! j)))"
      then obtain j where "j < length ts" "best' = i + 1 + j"
        "b' = Num (cosine intent (centroid (ts ! j)))" by blast
      then show ?thesis by (intro exI[of _ "Suc j"]) simp
    qed
    have c: "\<forall>x. bestSim = Num x \<longrightarrow> \<not> exceeds x b'"
      using True y by auto
    show ?thesis using r a b c by blast
  next
    case False
    obtain x where x: "bestSim = Num x" "?c \<le> x" using not_exceeds_Num[OF False] by blast
    obtain best' b' where ih:
      "route_loop intent ts (i + 1) best bestSim = Inr (best', b')"
      "\<forall>j<length ts. \<not> exceeds (cosine intent (centroid (ts ! j))) b'"
      "(best' = best \<and> b' = bestSim) \<or>
       (\<exists>j<length ts. best' = i + 1 + j \<and> b' = Num (cosine intent (centroid (ts ! j))))"
      "\<not> exceeds x b'"
      using Cons.IH[OF rest, of "i + 1" best bestSim] x(1) by auto
    obtain y where y: "b' = Num y" "x \<le> y" using not_exceeds_Num[OF ih(4)] by blast
    have r: "route_loop intent (t # ts) i best bestSim = Inr (best', b')"
      using cs False ih(1) by simp
    have a: "\<forall>j<length (t # ts). \<not> exceeds (cosine intent (centroid ((t # ts) ! j))) b'"
      using ih(2) x(2) y by (auto simp: less_Suc_eq_0_disj)
    have b: "(best' = best \<and> b' = bestSim) \<or> (\<exists>j<length (t # ts). best' = i + j \<and>
        b' = Num (cosine intent (centroid ((t # ts) ! j))))"
      using ih(3)
    proof
      assume "best' = best \<and> b' = bestSim"
      then show ?thesis by simp
    next
      assume "\<exists>j<length ts. best' = i + 1 + j \<and> b' = Num (cosine intent (centroid (ts ! j)))"
      then obtain j where "j < length ts" "best' = i + 1 + j"
        "b' = Num (cosine intent (centroid (ts ! j)))" by blast
      then have "Suc j < length (t # ts) \<and> best' = i + Suc j \<and>
          b' = Num (cosine intent (centroid ((t # ts) ! Suc j)))" by simp
      then show ?thesis by blast
    qed
    have c: "\<forall>z. bestSim = Num z \<longrightarrow> \<not> exceeds z b'"
      using x(1) ih(4) by auto
    show ?thesis using r a b c by blast
  qed
qed

lemma route_nonempty:
  assumes "mind_ok s" "\<forall>t\<in>set toolMap. length (centroid t) = FACET_SIZE" "toolMap \<noteq> []"
  shows "\<exists>j<length toolMap.
           route s toolMap =
             Inr \<lparr>res_toolId = toolId (toolMap ! j),
                  confidence = Num (cosine (facet_of s 0) (centroid (toolMap ! j))),
                  intentVector = facet_of s 0\<rparr> \<and>
           (\<forall>i<length toolMap.
              cosine (facet_of s 0) (centroid (toolMap ! i))
                \<le> cosine (facet_of s 0) (centroid (toolMap ! j)))"
proof -
  let ?intent = "facet_of s 0"
  have li: "length ?intent = FACET_SIZE" using assms(1) by (rule intent_length)
  obtain best' b' where l:
    "route_loop ?intent toolMap 0 0 NegInfinity = Inr (best', b')"
    "\<forall>j<length toolMap. \<not> exceeds (cosine ?intent (centroid (toolMap ! j))) b'"
    "(best' = 0 \<and> b' = NegInfinity) \<or>
     (\<exists>j<length toolMap. best' = 0 + j \<and> b' = Num (cosine ?intent (centroid (toolMap ! j))))"
    using route_loop_spec[OF li assms(2), of 0 0 NegInfinity] by blast
  have pos: "0 < length toolMap" using assms(3) by simp
  have "b' \<noteq> NegInfinity" using l(2) pos by auto
  then obtain j where j: "j < length toolMap" "best' = j"
    "b' = Num (cosine ?intent (centroid (toolMap ! j)))"
    using l(3) by auto
  have mx: "\<forall>i<length toolMap. cosine ?intent (centroid (toolMap ! i))
      \<le> cosine ?intent (centroid (toolMap ! j))"
    using l(2) j(3) by auto
  have "route s toolMap =
      Inr \<lparr>res_toolId = toolId (toolMap ! j),
           confidence = Num (cosine ?intent (centroid (toolMap ! j))),
           intentVector = ?intent\<rparr>"
    using assms(3) l(1) j(2,3) by (simp add: route_def intent_view facet_of_def Let_def)
  then show ?thesis using j(1) mx by blast
qed

lemma route_empty: "route s [] = Inl ToolMapNotInitialized"
  by (simp add: route_def)

text \<open>
  Claim C4. With at least one centroid registered (each of length \<open>FACET_SIZE\<close>),
  \<open>route()\<close> returns the \<open>toolId\<close> of a centroid whose cosine similarity to the intent
  facet is maximal over all registered centroids, with that similarity as confidence
  (and a copy of the intent); with no centroid it throws \<open>Tool map not initialized\<close>.
\<close>

theorem C4_route_argmax:
  assumes "mind_ok s" "\<forall>t\<in>set toolMap. length (centroid t) = FACET_SIZE"
  shows "(toolMap \<noteq> [] \<longrightarrow>
            (\<exists>j<length toolMap.
               route s toolMap =
                 Inr \<lparr>res_toolId = toolId (toolMap ! j),
                      confidence = Num (cosine (facet_of s 0) (centroid (toolMap ! j))),
                      intentVector = facet_of s 0\<rparr> \<and>
               (\<forall>i<length toolMap.
                  cosine (facet_of s 0) (centroid (toolMap ! i))
                    \<le> cosine (facet_of s 0) (centroid (toolMap ! j))))) \<and>
         (toolMap = [] \<longrightarrow> route s toolMap = Inl ToolMapNotInitialized)"
  using route_nonempty[OF assms] route_empty by blast

theorem C4_route_argmax_witness:
  "mind_ok new_mind \<and>
   list_all (\<lambda>t. length (centroid t) = FACET_SIZE)
     (initializeToolMap [(1, ''Navigate'', replicate FACET_SIZE 1),
                         (2, ''Search'', replicate FACET_SIZE 2)]) \<and>
   (\<exists>j<length (initializeToolMap [(1, ''Navigate'', replicate FACET_SIZE 1),
                                     (2, ''Search'', replicate FACET_SIZE 2)]).
      route new_mind (initializeToolMap [(1, ''Navigate'', replicate FACET_SIZE 1),
                                         (2, ''Search'', replicate FACET_SIZE 2)]) =
        Inr \<lparr>res_toolId =
               toolId (initializeToolMap [(1, ''Navigate'', replicate FACET_SIZE 1),
                                          (2, ''Search'', replicate FACET_SIZE 2)] ! j),
             confidence =
               Num (cosine (facet_of new_mind 0)
                      (centroid (initializeToolMap [(1, ''Navigate'', replicate FACET_SIZE 1),
                                                    (2, ''Search'', replicate FACET_SIZE 2)] ! j))),
             intentVector = facet_of new_mind 0\<rparr>) \<and>
   route new_mind [] = Inl ToolMapNotInitialized"
proof -
  let ?tm = "initializeToolMap [(1, ''Navigate'', replicate FACET_SIZE 1),
                                (2, ''Search'', replicate FACET_SIZE 2)]"
  have h1: "mind_ok new_mind" by (rule new_mind_ok)
  have h2: "\<forall>t\<in>set ?tm. length (centroid t) = FACET_SIZE"
    by (simp add: initializeToolMap_def)
  have h2': "list_all (\<lambda>t. length (centroid t) = FACET_SIZE) ?tm"
    by (simp add: initializeToolMap_def)
  have h3: "\<forall>t\<in>set ([]::tool list). length (centroid t) = FACET_SIZE" by simp
  have ne: "?tm \<noteq> []" by (simp add: initializeToolMap_def)
  show ?thesis
    using C4_route_argmax[OF h1 h2] C4_route_argmax[OF h1 h3] h1 h2' ne by blast
qed

section \<open>Top-k routing\<close>

lemma cand_loop_spec:
  assumes "length intent = FACET_SIZE" "\<forall>t\<in>set ts. length (centroid t) = FACET_SIZE"
  shows "cand_loop intent ts i =
           Inr (map (\<lambda>j. \<lparr>index = i + j, sim = cosine intent (centroid (ts ! j))\<rparr>)
                  [0..<length ts])"
  using assms(2)
proof (induction ts arbitrary: i)
  case Nil
  then show ?case by simp
next
  case (Cons t ts)
  have cs: "cosineSimilarity intent (centroid t) = Inr (cosine intent (centroid t))"
    using Cons.prems assms(1) by (simp add: cosineSimilarity_cosine)
  have ih: "cand_loop intent ts (i + 1) =
      Inr (map (\<lambda>j. \<lparr>index = i + 1 + j, sim = cosine intent (centroid (ts ! j))\<rparr>)
             [0..<length ts])"
    using Cons.prems by (intro Cons.IH) simp
  have up: "[0..<length (t # ts)] = 0 # map Suc [0..<length ts]"
    by (simp add: upt_conv_Cons map_Suc_upt del: upt_Suc)
  show ?case
    unfolding up using cs ih by (simp add: comp_def)
qed

lemma sorted_wrt_filter_nth:
  assumes "sorted_wrt R (filter P xs)" "p < q" "q < length xs" "P (xs ! p)" "P (xs ! q)"
  shows "R (xs ! p) (xs ! q)"
  using assms
proof (induction xs arbitrary: p q)
  case Nil
  then show ?case by simp
next
  case (Cons x xs)
  obtain q' where q': "q = Suc q'" using Cons.prems(2) by (cases q) auto
  show ?case
  proof (cases p)
    case 0
    have "xs ! q' \<in> set (filter P xs)" using Cons.prems(3,5) q' by simp
    then show ?thesis using Cons.prems(1,4) 0 q' by simp
  next
    case (Suc p')
    have "sorted_wrt R (filter P xs)" using Cons.prems(1) by (cases "P x") simp_all
    then show ?thesis
      using Cons.IH[of p' q'] Cons.prems(2,3,4,5) Suc q' by simp
  qed
qed

lemma sort_desc_length: "length (sort_desc cs) = length cs"
  by (simp add: sort_desc_def)

lemma sort_desc_set: "set (sort_desc cs) = set cs"
  by (simp add: sort_desc_def)

lemma sort_desc_sorted:
  assumes "p < q" "q < length cs"
  shows "sim (sort_desc cs ! q) \<le> sim (sort_desc cs ! p)"
proof -
  have s: "sorted (map (\<lambda>c. - sim c) (sort_desc cs))"
    unfolding sort_desc_def by (rule sorted_sort_key)
  have l: "p \<le> q" "q < length (map (\<lambda>c. - sim c) (sort_desc cs))"
    using assms by (simp_all add: sort_desc_length)
  have "map (\<lambda>c. - sim c) (sort_desc cs) ! p \<le> map (\<lambda>c. - sim c) (sort_desc cs) ! q"
    using s l by (rule sorted_nth_mono)
  then show ?thesis using assms by (simp add: sort_desc_length)
qed

lemma sort_desc_stable:
  assumes inc: "sorted_wrt (\<lambda>c d. index c < index d) cs"
    and "p < q" "q < length cs" "sim (sort_desc cs ! p) = sim (sort_desc cs ! q)"
  shows "index (sort_desc cs ! p) < index (sort_desc cs ! q)"
proof -
  let ?v = "- sim (sort_desc cs ! q)"
  have "filter (\<lambda>c. - sim c = ?v) (sort_desc cs) = filter (\<lambda>c. - sim c = ?v) cs"
    unfolding sort_desc_def by (rule sort_key_stable)
  moreover have "sorted_wrt (\<lambda>c d. index c < index d) (filter (\<lambda>c. - sim c = ?v) cs)"
    using inc by (rule sorted_wrt_filter)
  ultimately have f: "sorted_wrt (\<lambda>c d. index c < index d)
      (filter (\<lambda>c. - sim c = ?v) (sort_desc cs))"
    by (simp only:)
  have q: "q < length (sort_desc cs)" using assms(3) by (simp add: sort_desc_length)
  have pp: "- sim (sort_desc cs ! p) = ?v" using assms(4) by simp
  have pq: "- sim (sort_desc cs ! q) = ?v" by simp
  show ?thesis
    using sorted_wrt_filter_nth[OF f assms(2) q pp pq] .
qed

lemma slice0_nonneg: "0 \<le> k \<Longrightarrow> slice0 xs k = take (nat k) xs"
  by (simp add: slice0_def)

lemma routeTopK_result:
  assumes "mind_ok s" "\<forall>t\<in>set toolMap. length (centroid t) = FACET_SIZE"
    and "toolMap \<noteq> []" "0 \<le> k"
  shows "routeTopK s toolMap k =
     Inr (map (\<lambda>c. \<lparr>res_toolId = toolId (toolMap ! index c), confidence = Num (sim c),
                     intentVector = facet_of s 0\<rparr>)
            (take (nat k) (sort_desc (base_cands (facet_of s 0) toolMap))))"
proof -
  have li: "length (facet_of s 0) = FACET_SIZE" using assms(1) by (rule intent_length)
  have cl: "cand_loop (view_get (mind s) 0) toolMap 0 = Inr (base_cands (facet_of s 0) toolMap)"
    using cand_loop_spec[OF li assms(2), of 0] by (simp add: base_cands_def facet_of_def)
  show ?thesis
    using assms(3,4)
    by (simp add: routeTopK_def intent_view Let_def slice0_nonneg cl) (simp add: facet_of_def)
qed


lemma base_cands_length: "length (base_cands intent toolMap) = length toolMap"
  by (simp add: base_cands_def)

lemma base_cands_increasing: "sorted_wrt (\<lambda>c d. index c < index d) (base_cands intent toolMap)"
proof -
  have "sorted_wrt (\<lambda>i j. i < j) [0..<length toolMap]" by (rule sorted_wrt_upt)
  then show ?thesis
    by (simp only: base_cands_def sorted_wrt_map cand.simps)
qed

lemma base_cands_member:
  assumes "c \<in> set (base_cands intent toolMap)"
  shows "index c < length toolMap \<and> sim c = cosine intent (centroid (toolMap ! index c))"
proof -
  obtain j where "j < length toolMap"
    "c = \<lparr>index = j, sim = cosine intent (centroid (toolMap ! j))\<rparr>"
    using assms unfolding base_cands_def by (auto simp only: set_map set_upt image_iff atLeastLessThan_iff)
  then show ?thesis by simp
qed


lemma top_cands_ordered:
  assumes "p < q" "q < length (take (nat k) (sort_desc (base_cands intent toolMap)))"
  shows "sim (take (nat k) (sort_desc (base_cands intent toolMap)) ! q)
           \<le> sim (take (nat k) (sort_desc (base_cands intent toolMap)) ! p) \<and>
         (sim (take (nat k) (sort_desc (base_cands intent toolMap)) ! p) =
          sim (take (nat k) (sort_desc (base_cands intent toolMap)) ! q) \<longrightarrow>
          index (take (nat k) (sort_desc (base_cands intent toolMap)) ! p)
            < index (take (nat k) (sort_desc (base_cands intent toolMap)) ! q))"
proof -
  let ?b = "base_cands intent toolMap"
  have q: "q < nat k" "q < length ?b"
    using assms(2) by (simp_all add: sort_desc_length)
  have p: "p < nat k" using assms(1) q(1) by simp
  have np: "take (nat k) (sort_desc ?b) ! p = sort_desc ?b ! p"
    using p by (rule nth_take)
  have nq: "take (nat k) (sort_desc ?b) ! q = sort_desc ?b ! q"
    using q(1) by (rule nth_take)
  show ?thesis
    unfolding np nq
    using sort_desc_sorted[OF assms(1) q(2)]
      sort_desc_stable[OF base_cands_increasing assms(1) q(2)] by blast
qed

lemma top_cands_member:
  assumes "c \<in> set (take (nat k) (sort_desc (base_cands intent toolMap)))"
  shows "index c < length toolMap \<and> sim c = cosine intent (centroid (toolMap ! index c))"
proof -
  have "c \<in> set (sort_desc (base_cands intent toolMap))" using assms by (rule in_set_takeD)
  then have "c \<in> set (base_cands intent toolMap)" by (simp only: sort_desc_set)
  then show ?thesis by (rule base_cands_member)
qed

lemma top_cands_length:
  "length (take (nat k) (sort_desc (base_cands intent toolMap))) = min (nat k) (length toolMap)"
  by (simp add: sort_desc_length base_cands_length min.commute)

text \<open>
  Claim C7. With \<open>m \<ge> 1\<close> centroids registered (each of length \<open>FACET_SIZE\<close>) and
  \<open>k \<ge> 0\<close>, \<open>routeTopK(k)\<close> returns exactly \<open>min(k, m)\<close> results, each the \<open>toolId\<close>
  of a registered centroid with its cosine similarity to the intent facet as confidence,
  in order of non-increasing similarity; two results of equal similarity stand in the
  order of registration.
\<close>

theorem C7_routeTopK_sorted_stable:
  assumes "mind_ok s" "\<forall>t\<in>set toolMap. length (centroid t) = FACET_SIZE"
    and "toolMap \<noteq> []" "0 \<le> k"
  shows "\<exists>(cs::cand list) res.
           routeTopK s toolMap k = Inr res \<and>
           length res = min (nat k) (length toolMap) \<and>
           res = map (\<lambda>c. \<lparr>res_toolId = toolId (toolMap ! index c),
                            confidence = Num (sim c),
                            intentVector = facet_of s 0\<rparr>) cs \<and>
           (\<forall>c\<in>set cs. index c < length toolMap \<and>
              sim c = cosine (facet_of s 0) (centroid (toolMap ! index c))) \<and>
           (\<forall>p q. p < q \<and> q < length cs \<longrightarrow>
              sim (cs ! q) \<le> sim (cs ! p) \<and>
              (sim (cs ! p) = sim (cs ! q) \<longrightarrow> index (cs ! p) < index (cs ! q)))"
proof -
  define sel where "sel = take (nat k) (sort_desc (base_cands (facet_of s 0) toolMap))"
  define res where "res = map (\<lambda>c. \<lparr>res_toolId = toolId (toolMap ! index c),
      confidence = Num (sim c), intentVector = facet_of s 0\<rparr>) sel"
  have a: "routeTopK s toolMap k = Inr res"
    unfolding res_def sel_def using assms by (rule routeTopK_result)
  have b: "length res = min (nat k) (length toolMap)"
    unfolding res_def sel_def by (simp only: length_map top_cands_length)
  have c: "\<forall>c\<in>set sel. index c < length toolMap \<and>
      sim c = cosine (facet_of s 0) (centroid (toolMap ! index c))"
    unfolding sel_def by (intro ballI) (rule top_cands_member)
  have d: "\<forall>p q. p < q \<and> q < length sel \<longrightarrow>
      sim (sel ! q) \<le> sim (sel ! p) \<and>
      (sim (sel ! p) = sim (sel ! q) \<longrightarrow> index (sel ! p) < index (sel ! q))"
    unfolding sel_def
  proof (intro allI impI)
    fix p q
    assume h: "p < q \<and> q < length (take (nat k) (sort_desc (base_cands (facet_of s 0) toolMap)))"
    have h1: "p < q" using h by (rule conjunct1)
    have h2: "q < length (take (nat k) (sort_desc (base_cands (facet_of s 0) toolMap)))"
      using h by (rule conjunct2)
    show "sim (take (nat k) (sort_desc (base_cands (facet_of s 0) toolMap)) ! q)
           \<le> sim (take (nat k) (sort_desc (base_cands (facet_of s 0) toolMap)) ! p) \<and>
         (sim (take (nat k) (sort_desc (base_cands (facet_of s 0) toolMap)) ! p) =
          sim (take (nat k) (sort_desc (base_cands (facet_of s 0) toolMap)) ! q) \<longrightarrow>
          index (take (nat k) (sort_desc (base_cands (facet_of s 0) toolMap)) ! p)
            < index (take (nat k) (sort_desc (base_cands (facet_of s 0) toolMap)) ! q))"
      using h1 h2 by (rule top_cands_ordered)
  qed
  show ?thesis
    by (intro exI[of _ sel] exI[of _ res] conjI a b res_def c d)
qed

theorem C7_routeTopK_sorted_stable_witness:
  "mind_ok new_mind \<and>
   list_all (\<lambda>t. length (centroid t) = FACET_SIZE)
     (initializeToolMap [(1, ''Navigate'', replicate FACET_SIZE 1),
                         (2, ''Search'', replicate FACET_SIZE 2),
                         (3, ''Analyze'', replicate FACET_SIZE 3)]) \<and>
   initializeToolMap [(1, ''Navigate'', replicate FACET_SIZE 1),
                      (2, ''Search'', replicate FACET_SIZE 2),
                      (3, ''Analyze'', replicate FACET_SIZE 3)] \<noteq> [] \<and>
   (0::int) \<le> 2 \<and>
   (\<exists>res.
      routeTopK new_mind
        (initializeToolMap [(1, ''Navigate'', replicate FACET_SIZE 1),
                            (2, ''Search'', replicate FACET_SIZE 2),
                            (3, ''Analyze'', replicate FACET_SIZE 3)]) 2 = Inr res \<and>
      length res = 2)"
proof -
  let ?tm = "initializeToolMap [(1, ''Navigate'', replicate FACET_SIZE 1),
                                (2, ''Search'', replicate FACET_SIZE 2),
                                (3, ''Analyze'', replicate FACET_SIZE 3)]"
  have h1: "mind_ok new_mind" by (rule new_mind_ok)
  have h2: "\<forall>t\<in>set ?tm. length (centroid t) = FACET_SIZE"
    by (simp add: initializeToolMap_def)
  have h2': "list_all (\<lambda>t. length (centroid t) = FACET_SIZE) ?tm"
    by (simp add: initializeToolMap_def)
  have h3: "?tm \<noteq> []" by (simp add: initializeToolMap_def)
  have h4: "(0::int) \<le> 2" by simp
  have m: "min (nat 2) (length ?tm) = 2" by (simp add: initializeToolMap_def)
  show ?thesis
    using C7_routeTopK_sorted_stable[OF h1 h2 h3 h4] h1 h2' h3 h4 unfolding m by blast
qed

section \<open>Updating a centroid\<close>

lemma fold_update:
  assumes "n \<le> length v"
  shows "fold (\<lambda>i w. w[i := g i (w ! i)]) [0..<n] v =
           map (\<lambda>i. if i < n then g i (v ! i) else v ! i) [0..<length v]"
  using assms
proof (induction n)
  case 0
  then show ?case by (simp add: map_nth)
next
  case (Suc n)
  let ?w = "map (\<lambda>i. if i < n then g i (v ! i) else v ! i) [0..<length v]"
  have n: "n < length v" using Suc.prems by simp
  have ih: "fold (\<lambda>i w. w[i := g i (w ! i)]) [0..<n] v = ?w"
    using Suc by simp
  have wn: "?w ! n = v ! n" using n by simp
  have "fold (\<lambda>i w. w[i := g i (w ! i)]) [0..<Suc n] v = ?w[n := g n (v ! n)]"
    using ih wn by simp
  also have "\<dots> = map (\<lambda>i. if i < Suc n then g i (v ! i) else v ! i) [0..<length v]"
    by (rule nth_equalityI) (auto simp: nth_list_update less_Suc_eq)
  finally show ?case .
qed

lemma fold_sum:
  fixes h :: "nat \<Rightarrow> real"
  shows "fold (\<lambda>i s. s + h i) [0..<n] a = a + (\<Sum>i<n. h i)"
  by (induction n) simp_all

lemma blend_loop_map:
  assumes "length c = FACET_SIZE"
  shows "blend_loop c feedback lr =
           map (\<lambda>i. c ! i + lr * (feedback ! i - c ! i)) [0..<FACET_SIZE]"
proof -
  have "blend_loop c feedback lr =
      fold (\<lambda>i w. w[i := (\<lambda>i x. x + lr * (feedback ! i - x)) i (w ! i)]) [0..<FACET_SIZE] c"
    by (simp add: blend_loop_def Let_def)
  also have "\<dots> = map (\<lambda>i. if i < FACET_SIZE then c ! i + lr * (feedback ! i - c ! i) else c ! i)
      [0..<length c]"
    using assms by (subst fold_update) simp_all
  also have "\<dots> = map (\<lambda>i. c ! i + lr * (feedback ! i - c ! i)) [0..<FACET_SIZE]"
    using assms by simp
  finally show ?thesis .
qed

lemma sumsq_loop_norm: "sqrt (sumsq_loop v) = euclid_norm v"
  by (simp add: sumsq_loop_def euclid_norm_def fold_sum power2_eq_square)

lemma normalize_map:
  assumes "length v = FACET_SIZE"
  shows "normalize v =
           (if euclid_norm v > 0 then map (\<lambda>x. x * (1 / euclid_norm v)) v else v)"
proof (cases "euclid_norm v > 0")
  case True
  have "fold (\<lambda>i w. w[i := (\<lambda>i x. x * (1 / euclid_norm v)) i (w ! i)]) [0..<FACET_SIZE] v =
      map (\<lambda>i. if i < FACET_SIZE then v ! i * (1 / euclid_norm v) else v ! i) [0..<length v]"
    using assms by (subst fold_update) simp_all
  also have "\<dots> = map (\<lambda>x. x * (1 / euclid_norm v)) v"
    using assms by (intro nth_equalityI) simp_all
  finally show ?thesis
    using True by (simp add: normalize_def sumsq_loop_norm Let_def)
next
  case False
  then show ?thesis by (simp add: normalize_def sumsq_loop_norm Let_def)
qed

lemma euclid_norm_scaled:
  assumes "length v = FACET_SIZE"
  shows "euclid_norm (map (\<lambda>x. x * k) v) = \<bar>k\<bar> * euclid_norm v"
proof -
  have "(\<Sum>i<FACET_SIZE. (map (\<lambda>x. x * k) v ! i)\<^sup>2) = (\<Sum>i<FACET_SIZE. k\<^sup>2 * (v ! i)\<^sup>2)"
    using assms by (intro sum.cong) (simp_all add: power_mult_distrib mult.commute)
  also have "\<dots> = k\<^sup>2 * (\<Sum>i<FACET_SIZE. (v ! i)\<^sup>2)"
    by (simp add: sum_distrib_left)
  finally show ?thesis
    by (simp add: euclid_norm_def real_sqrt_mult)
qed

lemma normalize_unit:
  assumes "length v = FACET_SIZE" "euclid_norm v \<noteq> 0"
  shows "euclid_norm (normalize v) = 1"
proof -
  have p: "0 < euclid_norm v" using assms(2) euclid_norm_nonneg[of v] by simp
  have "euclid_norm (normalize v) = \<bar>1 / euclid_norm v\<bar> * euclid_norm v"
    using p by (simp only: normalize_map[OF assms(1)] if_True euclid_norm_scaled[OF assms(1)])
  also have "\<dots> = 1" using p by simp
  finally show ?thesis .
qed

lemma length_blend: "length c = FACET_SIZE \<Longrightarrow> length (blend_loop c feedback lr) = FACET_SIZE"
  by (simp add: blend_loop_map)

lemma find_tool_some:
  "find_tool tid ts = Some j \<Longrightarrow>
     j < length ts \<and> toolId (ts ! j) = tid \<and> (\<forall>i<j. toolId (ts ! i) \<noteq> tid)"
proof (induction ts arbitrary: j)
  case Nil
  then show ?case by simp
next
  case (Cons t ts)
  show ?case
  proof (cases "toolId t = tid")
    case True
    then show ?thesis using Cons.prems by simp
  next
    case False
    then obtain j' where j': "find_tool tid ts = Some j'" "j = Suc j'"
      using Cons.prems by (auto split: option.splits)
    show ?thesis
      using Cons.IH[OF j'(1)] j'(2) False by (auto simp: less_Suc_eq_0_disj)
  qed
qed

lemma find_tool_none: "(find_tool tid ts = None) = (tid \<notin> toolId ` set ts)"
  by (induction ts) (auto split: option.splits)

lemma updateTool_registered:
  assumes "find_tool tid toolMap = Some j" "length feedback = FACET_SIZE"
  shows "updateTool toolMap tid feedback lr =
           Inr (False,
             toolMap[j := (toolMap ! j)
               \<lparr>centroid := normalize (blend_loop (centroid (toolMap ! j)) feedback lr),
                hitCount := hitCount (toolMap ! j) + 1\<rparr>])"
  using assms by (simp add: updateTool_def Let_def)

lemma updateTool_unknown:
  assumes "find_tool tid toolMap = None"
  shows "updateTool toolMap tid feedback lr = Inr (True, toolMap)"
  using assms by (simp add: updateTool_def)

text \<open>
  Claim C8, as the code has it. With a registered id and a feedback of length
  \<open>FACET_SIZE\<close>, \<open>updateTool(id, feedback, lr)\<close> takes the first tool \<open>j\<close> with that id,
  sets its centroid to the blend \<open>centroid[i] + lr * (feedback[i] - centroid[i])\<close>,
  scaled by \<open>1 / norm\<close> when the norm of the blend is positive (the result then has
  Euclidean norm 1) and left as it is when the blend is the zero vector, and adds exactly
  1 to its hit count; nothing else changes. With an unregistered id it prints the warning
  and changes nothing, whatever the feedback.
\<close>

theorem C8_updateTool_blend_normalize:
  assumes "\<forall>t\<in>set toolMap. length (centroid t) = FACET_SIZE"
  shows "(tid \<in> toolId ` set toolMap \<and> length feedback = FACET_SIZE \<longrightarrow>
            (\<exists>j b c. j < length toolMap \<and> toolId (toolMap ! j) = tid \<and>
               (\<forall>i<j. toolId (toolMap ! i) \<noteq> tid) \<and>
               b = map (\<lambda>i. centroid (toolMap ! j) ! i +
                          lr * (feedback ! i - centroid (toolMap ! j) ! i)) [0..<FACET_SIZE] \<and>
               c = (if euclid_norm b > 0 then map (\<lambda>x. x * (1 / euclid_norm b)) b else b) \<and>
               (euclid_norm b \<noteq> 0 \<longrightarrow> euclid_norm c = 1) \<and>
               updateTool toolMap tid feedback lr =
                 Inr (False,
                   toolMap[j := (toolMap ! j)
                     \<lparr>centroid := c, hitCount := hitCount (toolMap ! j) + 1\<rparr>]))) \<and>
         (tid \<notin> toolId ` set toolMap \<longrightarrow>
            updateTool toolMap tid feedback lr = Inr (True, toolMap))"
proof (intro conjI impI)
  assume h: "tid \<in> toolId ` set toolMap \<and> length feedback = FACET_SIZE"
  then have "find_tool tid toolMap \<noteq> None" by (simp add: find_tool_none)
  then obtain j where j: "find_tool tid toolMap = Some j" by auto
  note fj = find_tool_some[OF j]
  have lc: "length (centroid (toolMap ! j)) = FACET_SIZE" using assms fj by simp
  define b where "b = map (\<lambda>i. centroid (toolMap ! j) ! i +
      lr * (feedback ! i - centroid (toolMap ! j) ! i)) [0..<FACET_SIZE]"
  define c where "c = (if euclid_norm b > 0 then map (\<lambda>x. x * (1 / euclid_norm b)) b else b)"
  have bl: "blend_loop (centroid (toolMap ! j)) feedback lr = b"
    unfolding b_def using lc by (rule blend_loop_map)
  have lb: "length b = FACET_SIZE" by (simp add: b_def)
  have nb: "normalize b = c" unfolding c_def using lb by (rule normalize_map)
  have un: "euclid_norm b \<noteq> 0 \<longrightarrow> euclid_norm c = 1"
    using normalize_unit[OF lb] nb by simp
  have up: "updateTool toolMap tid feedback lr =
      Inr (False, toolMap[j := (toolMap ! j)\<lparr>centroid := c, hitCount := hitCount (toolMap ! j) + 1\<rparr>])"
    using updateTool_registered[OF j, of feedback lr] h bl nb by simp
  show "\<exists>j b c. j < length toolMap \<and> toolId (toolMap ! j) = tid \<and>
          (\<forall>i<j. toolId (toolMap ! i) \<noteq> tid) \<and>
          b = map (\<lambda>i. centroid (toolMap ! j) ! i +
                     lr * (feedback ! i - centroid (toolMap ! j) ! i)) [0..<FACET_SIZE] \<and>
          c = (if euclid_norm b > 0 then map (\<lambda>x. x * (1 / euclid_norm b)) b else b) \<and>
          (euclid_norm b \<noteq> 0 \<longrightarrow> euclid_norm c = 1) \<and>
          updateTool toolMap tid feedback lr =
            Inr (False,
              toolMap[j := (toolMap ! j)\<lparr>centroid := c, hitCount := hitCount (toolMap ! j) + 1\<rparr>])"
    by (intro exI[of _ j] exI[of _ b] exI[of _ c] conjI fj[THEN conjunct1]
        fj[THEN conjunct2, THEN conjunct1] fj[THEN conjunct2, THEN conjunct2] b_def c_def un up)
next
  assume "tid \<notin> toolId ` set toolMap"
  then have "find_tool tid toolMap = None" by (simp add: find_tool_none)
  then show "updateTool toolMap tid feedback lr = Inr (True, toolMap)"
    by (rule updateTool_unknown)
qed

lemma blend_replicate:
  "blend_loop (replicate FACET_SIZE a) (replicate FACET_SIZE f) lr =
     replicate FACET_SIZE (a + lr * (f - a))"
  by (simp add: blend_loop_map) (rule nth_equalityI, simp_all)

theorem C8_updateTool_blend_normalize_witness:
  "list_all (\<lambda>t. length (centroid t) = FACET_SIZE)
     (initializeToolMap [(1, ''Navigate'', replicate FACET_SIZE 1)]) \<and>
   (\<exists>c. euclid_norm c = 1 \<and>
      updateTool (initializeToolMap [(1, ''Navigate'', replicate FACET_SIZE 1)]) 1
        (replicate FACET_SIZE 3) (1/2) =
        Inr (False,
          [\<lparr>toolId = 1, name = ''Navigate'', centroid = c, hitCount = 1, accuracy = 0\<rparr>])) \<and>
   updateTool (initializeToolMap [(1, ''Navigate'', replicate FACET_SIZE 1)]) 7
     (replicate FACET_SIZE 3) (1/2) =
     Inr (True, initializeToolMap [(1, ''Navigate'', replicate FACET_SIZE 1)])"
proof -
  let ?tm = "initializeToolMap [(1, ''Navigate'', replicate FACET_SIZE 1)]"
  let ?fb = "replicate FACET_SIZE (3::real)"
  have tm: "?tm = [\<lparr>toolId = 1, name = ''Navigate'', centroid = replicate FACET_SIZE 1,
      hitCount = 0, accuracy = 0\<rparr>]"
    by (simp add: initializeToolMap_def)
  have h: "\<forall>t\<in>set ?tm. length (centroid t) = FACET_SIZE" by (simp add: tm)
  have h': "list_all (\<lambda>t. length (centroid t) = FACET_SIZE) ?tm" by (simp add: tm)
  note inst = C8_updateTool_blend_normalize[OF h, of _ ?fb "1/2"]
  have reg: "(1::int) \<in> toolId ` set ?tm \<and> length ?fb = FACET_SIZE" by (simp add: tm)
  have unk: "(7::int) \<notin> toolId ` set ?tm" by (simp add: tm)
  obtain j b c where r: "j < length ?tm"
    "b = map (\<lambda>i. centroid (?tm ! j) ! i + 1/2 * (?fb ! i - centroid (?tm ! j) ! i))
           [0..<FACET_SIZE]"
    "euclid_norm b \<noteq> 0 \<longrightarrow> euclid_norm c = 1"
    "updateTool ?tm 1 ?fb (1/2) =
       Inr (False, ?tm[j := (?tm ! j)\<lparr>centroid := c, hitCount := hitCount (?tm ! j) + 1\<rparr>])"
    using inst[of 1] reg by blast
  have j0: "j = 0" using r(1) by (simp add: tm)
  have "b = replicate FACET_SIZE 2"
    unfolding r(2) j0 tm by (rule nth_equalityI) simp_all
  then have "euclid_norm b \<noteq> 0"
    using FACET_SIZE_pos by (simp add: euclid_norm_replicate)
  then have c1: "euclid_norm c = 1" using r(3) by simp
  have u1: "updateTool ?tm 1 ?fb (1/2) =
      Inr (False, [\<lparr>toolId = 1, name = ''Navigate'', centroid = c, hitCount = 1, accuracy = 0\<rparr>])"
    using r(4) unfolding j0 tm by simp
  have u2: "updateTool ?tm 7 ?fb (1/2) = Inr (True, ?tm)"
    using inst[of 7] unk by blast
  show ?thesis using h' c1 u1 u2 by blast
qed

text \<open>
  Claim C8 as stated fails where it says that the centroid is renormalized to unit length.
  A tool map with the one unit centroid \<open>(1, 0, 0, ...)\<close>, a feedback of zeros and
  \<open>lr = 1\<close>: the blend is the zero vector, \<open>normalize\<close> leaves it (its norm is not
  positive), and the centroid stored has norm 0. The hit count is 1.
\<close>

theorem C8_counterexample:
  "updateTool (initializeToolMap [(1, ''Navigate'', 1 # replicate (FACET_SIZE - 1) 0)]) 1
     (replicate FACET_SIZE 0) 1 =
     Inr (False,
       [\<lparr>toolId = 1, name = ''Navigate'', centroid = replicate FACET_SIZE 0,
         hitCount = 1, accuracy = 0\<rparr>]) \<and>
   euclid_norm (1 # replicate (FACET_SIZE - 1) 0) = 1 \<and>
   euclid_norm (replicate FACET_SIZE 0) = 0"
proof (intro conjI)
  let ?e = "1 # replicate (FACET_SIZE - 1) (0::real)"
  let ?tm = "initializeToolMap [(1, ''Navigate'', ?e)]"
  have le: "length ?e = FACET_SIZE" using FACET_SIZE_pos by simp
  have tm: "?tm = [\<lparr>toolId = 1, name = ''Navigate'', centroid = ?e, hitCount = 0, accuracy = 0\<rparr>]"
    by (simp add: initializeToolMap_def)
  have f: "find_tool 1 ?tm = Some 0" unfolding tm by simp
  have "blend_loop ?e (replicate FACET_SIZE 0) 1 =
      map (\<lambda>i. ?e ! i + 1 * (replicate FACET_SIZE 0 ! i - ?e ! i)) [0..<FACET_SIZE]"
    using le by (rule blend_loop_map)
  also have "\<dots> = replicate FACET_SIZE 0"
    by (rule nth_equalityI) simp_all
  finally have b: "blend_loop ?e (replicate FACET_SIZE 0) 1 = replicate FACET_SIZE 0" .
  show z: "euclid_norm (replicate FACET_SIZE 0) = 0"
    by (simp add: euclid_norm_replicate)
  have n: "normalize (replicate FACET_SIZE 0) = replicate FACET_SIZE 0"
    using z by (simp add: normalize_map)
  show "updateTool ?tm 1 (replicate FACET_SIZE 0) 1 =
      Inr (False, [\<lparr>toolId = 1, name = ''Navigate'', centroid = replicate FACET_SIZE 0,
        hitCount = 1, accuracy = 0\<rparr>])"
    using updateTool_registered[OF f, of "replicate FACET_SIZE 0" 1] b n
    unfolding tm by simp
  have "(\<Sum>i<FACET_SIZE. (?e ! i)\<^sup>2) = (\<Sum>i<FACET_SIZE. if i = 0 then 1 else 0)"
    by (rule sum.cong) (auto simp: nth_Cons')
  also have "\<dots> = 1" using FACET_SIZE_pos by (simp add: sum.delta)
  finally show "euclid_norm ?e = 1" by (simp add: euclid_norm_def)
qed

end
